theory Spec2Isabelle
  imports Complex_Main "HOL-Library.Word" "HOL-Library.Multiset" "HOL-Library.AList"
    "HOL-Library.List_Lexorder" "HOL-Library.Log_Nat"
begin

section \<open>Errors and library primitives\<close>

text \<open>
  Every \<open>raise\<close> of the pipeline, the two exceptions of the Python runtime its code can
  meet (\<open>ord\<close> of a string that is not one character, an index out of range), and an
  exception raised inside fontTools.
\<close>

datatype error =
    NoCharactersFound  \<comment> \<open>\<open>ValueError("No characters found in image")\<close>\<close>
  | NoValidRegions     \<comment> \<open>\<open>ValueError("No valid character regions found")\<close>\<close>
  | NoValidGlyphs      \<comment> \<open>\<open>ValueError("No valid glyphs could be extracted ...")\<close>\<close>
  | TypeError
  | IndexError
  | LibraryError

section \<open>Images, points and boxes\<close>

text \<open>
  A binary mask is a two-dimensional \<open>uint8\<close> array, stored row by row: \<open>m ! r ! c\<close> is the
  pixel in row \<open>r\<close> (the y coordinate) and column \<open>c\<close> (the x coordinate). Zero is background,
  every other value is foreground. Coordinates, widths and heights are Python integers.
\<close>

type_synonym uint8 = "8 word"
type_synonym mask = "uint8 list list"
type_synonym point = "int \<times> int"
type_synonym contour = "point list"
type_synonym bbox = "int \<times> int \<times> int \<times> int"

text \<open>The shape of an array whose rows all have the same length.\<close>

definition width :: "mask \<Rightarrow> nat" where
  "width m = (case m of [] \<Rightarrow> 0 | row # _ \<Rightarrow> length row)"

definition is_array :: "mask \<Rightarrow> bool" where
  "is_array m = list_all (\<lambda>row. length row = width m) m"

text \<open>
  Python's \<open>xs[i:j]\<close> with a step of one: a negative bound counts from the end, and both
  bounds are clamped to the list.
\<close>

definition clamp_index :: "nat \<Rightarrow> int \<Rightarrow> nat" where
  "clamp_index n i = (if i < 0 then nat (max (i + int n) 0) else min (nat i) n)"

definition py_slice :: "'a list \<Rightarrow> int \<Rightarrow> int \<Rightarrow> 'a list" where
  "py_slice xs i j =
     (let a = clamp_index (length xs) i; b = clamp_index (length xs) j
      in take (b - a) (drop a xs))"

text \<open>\<open>binary[y1:y2, x1:x2]\<close>: rows \<open>y1 .. y2 - 1\<close>, and of each the columns \<open>x1 .. x2 - 1\<close>.\<close>

definition slice2 :: "mask \<Rightarrow> int \<Rightarrow> int \<Rightarrow> int \<Rightarrow> int \<Rightarrow> mask" where
  "slice2 m y1 y2 x1 x2 = map (\<lambda>row. py_slice row x1 x2) (py_slice m y1 y2)"

text \<open>\<open>np.zeros((rows, cols), dtype=np.uint8)\<close>.\<close>

definition zeros :: "int \<Rightarrow> int \<Rightarrow> mask" where
  "zeros rows cols = replicate (nat rows) (replicate (nat cols) 0)"

text \<open>
  \<open>cv2.findNonZero\<close>: the \<open>(x, y)\<close> positions of the non-zero pixels in row-major order, and
  \<open>None\<close> when there is none.
\<close>

definition nonzero_points :: "mask \<Rightarrow> point list" where
  "nonzero_points m =
     [(int c, int r). r \<leftarrow> [0..<length m], c \<leftarrow> [0..<length (m ! r)], m ! r ! c \<noteq> 0]"

definition findNonZero :: "mask \<Rightarrow> point list option" where
  "findNonZero m = (if nonzero_points m = [] then None else Some (nonzero_points m))"

text \<open>
  \<open>cv2.boundingRect\<close> of a point set: the smallest upright rectangle that holds every
  point, as \<open>(x, y, w, h)\<close> with \<open>w = max x - min x + 1\<close>; the empty set gives \<open>(0, 0, 0, 0)\<close>.
\<close>

definition boundingRect :: "point list \<Rightarrow> bbox" where
  "boundingRect ps =
     (if ps = [] then (0, 0, 0, 0)
      else let x0 = Min (set (map fst ps)); x1 = Max (set (map fst ps));
               y0 = Min (set (map snd ps)); y1 = Max (set (map snd ps))
           in (x0, y0, x1 - x0 + 1, y1 - y0 + 1))"

section \<open>The single-glyph extractor (segment.py)\<close>

text \<open>
  \<open>canvas[oy : oy + h, ox : ox + w] = cropped\<close> where \<open>cropped\<close> has the shape \<open>(h, w)\<close> of
  the target block: the rows \<open>oy .. oy + h - 1\<close> of the canvas get their columns
  \<open>ox .. ox + w - 1\<close> replaced by the rows of \<open>cropped\<close>.
\<close>

definition assign_block :: "mask \<Rightarrow> int \<Rightarrow> int \<Rightarrow> int \<Rightarrow> int \<Rightarrow> mask \<Rightarrow> mask" where
  "assign_block canvas oy h ox w cropped =
     take (nat oy) canvas
     @ map (\<lambda>(crow, brow). take (nat ox) crow @ brow @ drop (nat (ox + w)) crow)
           (zip (py_slice canvas oy (oy + h)) cropped)
     @ drop (nat (oy + h)) canvas"

definition extract_single_glyph :: "mask \<Rightarrow> mask" where
  "extract_single_glyph binary =
     (case findNonZero binary of
        None \<Rightarrow> binary
      | Some coords \<Rightarrow>
          (case boundingRect coords of (x, y, w, h) \<Rightarrow>
             let cropped = slice2 binary y (y + h) x (x + w);
                 size = max w h + 20;
                 canvas = zeros size size;
                 ox = (size - w) div 2;
                 oy = (size - h) div 2
             in assign_block canvas oy h ox w cropped))"


section \<open>Python numbers and strings\<close>

text \<open>
  \<open>round\<close> is Python 3's: to the nearest integer, a tie going to the even neighbour.
\<close>

definition py_round :: "rat \<Rightarrow> int" where
  "py_round q =
     (let f = \<lfloor>q\<rfloor>; d = q - of_int f
      in if d < 1 / 2 then f
         else if 1 / 2 < d then f + 1
         else if even f then f else f + 1)"

text \<open>
  A Python \<open>float\<close> is an IEEE 754 binary64 number, modelled by the rational it denotes.
  \<open>fl\<close> rounds a rational to the nearest double, a tie going to the even mantissa: for
  \<open>2\<^sup>e \<le> \<bar>q\<bar> < 2\<^sup>e\<^sup>+\<^sup>1\<close> the doubles around \<open>q\<close> are the multiples of \<open>2\<^sup>e\<^sup>-\<^sup>5\<^sup>2\<close>. Every
  arithmetic operation on floats returns the rounded exact result. Overflow and subnormal
  numbers are left out: the magnitudes of the pipeline (pixel counts and font units) lie
  far inside the normal range.
\<close>

definition float_exponent :: "rat \<Rightarrow> int" where
  "float_exponent q =
     (case quotient_of \<bar>q\<bar> of (a, b) \<Rightarrow>
        let k = bitlen a - bitlen b in if 2 powi k \<le> \<bar>q\<bar> then k else k - 1)"

definition fl :: "rat \<Rightarrow> rat" where
  "fl q =
     (if q = 0 then 0
      else let ulp = 2 powi (float_exponent q - 52)
           in of_int (py_round (q / ulp)) * ulp)"

text \<open>
  The conversion of an \<open>int\<close> operand, the four operations, and \<open>a / b\<close> on two integers
  (Python's true division, the correctly rounded quotient).
\<close>

definition float_of_int :: "int \<Rightarrow> rat" where
  "float_of_int n = fl (of_int n)"

definition float_add :: "rat \<Rightarrow> rat \<Rightarrow> rat" where
  "float_add a b = fl (a + b)"

definition float_sub :: "rat \<Rightarrow> rat \<Rightarrow> rat" where
  "float_sub a b = fl (a - b)"

definition float_mul :: "rat \<Rightarrow> rat \<Rightarrow> rat" where
  "float_mul a b = fl (a * b)"

definition int_truediv :: "int \<Rightarrow> int \<Rightarrow> rat" where
  "int_truediv a b = fl (of_int a / of_int b)"

text \<open>
  A Python \<open>str\<close> is a list of Unicode code points; a character is a string of length one.
  The case tables of \<open>str.isalpha\<close>, \<open>str.islower\<close>, \<open>str.upper\<close> and \<open>str.lower\<close>
  belong to the Python runtime and are parameters of the model.
\<close>

type_synonym pystr = "nat list"

record unicode =
  str_isalpha :: "pystr \<Rightarrow> bool"
  str_islower :: "pystr \<Rightarrow> bool"
  str_upper :: "pystr \<Rightarrow> pystr"
  str_lower :: "pystr \<Rightarrow> pystr"

text \<open>The four methods on strings of ASCII code points, where they agree with Python.\<close>

definition ascii_is_lower :: "nat \<Rightarrow> bool" where
  "ascii_is_lower c = (97 \<le> c \<and> c \<le> 122)"

definition ascii_is_upper :: "nat \<Rightarrow> bool" where
  "ascii_is_upper c = (65 \<le> c \<and> c \<le> 90)"

definition ascii :: unicode where
  "ascii = \<lparr>
     str_isalpha = (\<lambda>s. s \<noteq> [] \<and> list_all (\<lambda>c. ascii_is_lower c \<or> ascii_is_upper c) s),
     str_islower = (\<lambda>s. list_ex ascii_is_lower s \<and> \<not> list_ex ascii_is_upper s),
     str_upper = map (\<lambda>c. if ascii_is_lower c then c - 32 else c),
     str_lower = map (\<lambda>c. if ascii_is_upper c then c + 32 else c) \<rparr>"

text \<open>\<open>ord(s)\<close>: the code point of a one-character string, \<open>TypeError\<close> otherwise.\<close>

definition py_ord :: "pystr \<Rightarrow> error + nat" where
  "py_ord s = (case s of [c] \<Rightarrow> Inr c | _ \<Rightarrow> Inl TypeError)"

text \<open>\<open>f"uni{n:04X}"\<close>: upper-case hexadecimal, padded with zeros to four digits.\<close>

definition hex_digit :: "nat \<Rightarrow> char" where
  "hex_digit d = ''0123456789ABCDEF'' ! d"

fun hex_upper :: "nat \<Rightarrow> string" where
  "hex_upper n = (if n < 16 then [hex_digit n] else hex_upper (n div 16) @ [hex_digit (n mod 16)])"

declare hex_upper.simps [simp del]

definition uni_name :: "nat \<Rightarrow> string" where
  "uni_name n = (let h = hex_upper n in ''uni'' @ replicate (4 - length h) (CHR ''0'') @ h)"


section \<open>OpenCV\<close>

text \<open>
  The OpenCV routines the pipeline calls and does not implement are parameters, each with
  the arguments the source fixes:
  \<^item> \<open>findContours_external\<close>: \<open>cv2.findContours(binary, RETR_EXTERNAL, CHAIN_APPROX_SIMPLE)\<close>,
    the contours alone;
  \<^item> \<open>findContours_ccomp\<close>: \<open>cv2.findContours(binary, RETR_CCOMP, CHAIN_APPROX_TC89_L1)\<close>,
    the contours and \<open>hierarchy[0]\<close> (\<open>None\<close> when OpenCV returns no hierarchy), each entry
    being \<open>(next, previous, first_child, parent)\<close>;
  \<^item> \<open>approxPolyDP\<close>: \<open>cv2.approxPolyDP(contour, 0.5, True)\<close>;
  \<^item> \<open>connectedComponentsWithStats\<close>: with \<open>connectivity=8\<close>, as the number of labels, the
    label image and the \<open>CC_STAT_AREA\<close> column of the statistics;
  \<^item> \<open>cvtColor\<close>, \<open>GaussianBlur\<close>, \<open>adaptiveThreshold\<close>, \<open>morphologyEx\<close>: the four filters of
    the photo pipeline, on an image type \<open>'img\<close> left open.
\<close>

type_synonym hierarchy = "(int \<times> int \<times> int \<times> int) list"

record 'img opencv =
  findContours_external :: "mask \<Rightarrow> contour list"
  findContours_ccomp :: "mask \<Rightarrow> contour list \<times> hierarchy option"
  approxPolyDP :: "contour \<Rightarrow> contour"
  connectedComponentsWithStats :: "mask \<Rightarrow> nat \<times> nat list list \<times> nat list"
  cvtColor :: "'img \<Rightarrow> mask"
  GaussianBlur :: "mask \<Rightarrow> mask"
  adaptiveThreshold :: "mask \<Rightarrow> mask"
  morphologyEx :: "mask \<Rightarrow> mask"

section \<open>The vectorizer (vectorize.py)\<close>

definition UNITS_PER_EM :: int where "UNITS_PER_EM = 1000"
definition ASCENDER :: int where "ASCENDER = 800"
definition DESCENDER :: int where "DESCENDER = -200"

record path =
  points :: "point list"
  is_hole :: bool

record glyph =
  paths :: "path list"
  advance_width :: int
  lsb :: int

text \<open>
  The shoelace loop: \<open>area\<close> accumulates \<open>x\<^sub>i * y\<^sub>j - x\<^sub>j * y\<^sub>i\<close> for \<open>j = (i + 1) % n\<close>; the
  result is \<open>area / 2.0\<close>. The summands are products of rounded font coordinates, hence
  integers, and a double holds every integer below \<open>2\<^sup>5\<^sup>3\<close> in magnitude: on the
  pipeline's magnitudes the accumulation is exact, and it is modelled as the exact sum.
\<close>

definition shoelace_step :: "point list \<Rightarrow> nat \<Rightarrow> int \<Rightarrow> int" where
  "shoelace_step ps i area =
     (let j = (i + 1) mod length ps
      in area + fst (ps ! i) * snd (ps ! j) - fst (ps ! j) * snd (ps ! i))"

definition polygon_area :: "point list \<Rightarrow> rat" where
  "polygon_area ps = of_int (fold (shoelace_step ps) [0..<length ps] 0) / 2"

text \<open>
  The point transform of \<open>contours_to_font_paths\<close>: translate to the bounding box origin,
  scale, and flip the y axis.
\<close>

definition transform_point :: "int \<Rightarrow> int \<Rightarrow> rat \<Rightarrow> int \<Rightarrow> point \<Rightarrow> point" where
  "transform_point bx by scale target_height p =
     (case p of (px, py) \<Rightarrow>
        let fx = float_mul (float_sub (float_of_int px) (float_of_int bx)) scale;
            fy = float_add
                   (float_sub (float_of_int target_height)
                      (float_mul (float_sub (float_of_int py) (float_of_int by)) scale))
                   (float_of_int DESCENDER)
        in (py_round fx, py_round fy))"

text \<open>
  The body of the loop over \<open>enumerate(contours)\<close>, with \<open>commands\<close> as accumulator.
  \<open>hierarchy[0][i]\<close> raises \<open>IndexError\<close> past the end of the hierarchy.
\<close>

fun font_paths_loop ::
  "'img opencv \<Rightarrow> hierarchy \<Rightarrow> int \<Rightarrow> int \<Rightarrow> rat \<Rightarrow> int \<Rightarrow> (nat \<times> contour) list \<Rightarrow> path list
     \<Rightarrow> error + path list" where
  "font_paths_loop cv hier bx by scale target_height [] commands = Inr commands"
| "font_paths_loop cv hier bx by scale target_height ((i, contour) # rest) commands =
     (if length contour < 3 then font_paths_loop cv hier bx by scale target_height rest commands
      else let approx = approxPolyDP cv contour in
        if length approx < 3 then font_paths_loop cv hier bx by scale target_height rest commands
        else if length hier \<le> i then Inl IndexError
        else (case hier ! i of (_, _, _, parent) \<Rightarrow>
          let hole = (parent \<noteq> - 1);
              transformed = map (transform_point bx by scale target_height) approx;
              area = polygon_area transformed;
              transformed = (if (\<not> hole \<and> 0 < area) \<or> (hole \<and> area < 0)
                             then rev transformed else transformed)
          in font_paths_loop cv hier bx by scale target_height rest
               (commands @ [\<lparr>points = transformed, is_hole = hole\<rparr>])))"

definition contours_to_font_paths ::
  "'img opencv \<Rightarrow> contour list \<Rightarrow> hierarchy option \<Rightarrow> int \<Rightarrow> error + path list" where
  "contours_to_font_paths cv contours hierarchy target_height =
     (case hierarchy of
        None \<Rightarrow> Inr []
      | Some hier \<Rightarrow>
          if contours = [] then Inr []
          else (case boundingRect (concat contours) of (bx, by, bw, bh) \<Rightarrow>
            if bw = 0 \<or> bh = 0 then Inr []
            else let scale = int_truediv target_height (max bh 1)
                 in font_paths_loop cv hier bx by scale target_height
                      (enumerate 0 contours) []))"

text \<open>\<open>calculate_advance_width\<close>, which no caller in the repository uses.\<close>

definition calculate_advance_width :: "contour list \<Rightarrow> int \<Rightarrow> int \<Rightarrow> int" where
  "calculate_advance_width contours bitmap_height target_height =
     (if contours = [] then py_round (float_mul (float_of_int UNITS_PER_EM) (fl (5 / 10)))
      else (case boundingRect (concat contours) of (_, _, bw, bh) \<Rightarrow>
        let scale = int_truediv target_height (max bh 1);
            width = py_round (float_mul (float_of_int bw) scale);
            bearing = py_round (float_mul (float_of_int width) (fl (15 / 100)))
        in width + bearing * 2))"

definition shift_path :: "int \<Rightarrow> path \<Rightarrow> path" where
  "shift_path bearing path_group =
     path_group\<lparr>points := map (\<lambda>(x, y). (x + bearing, y)) (points path_group)\<rparr>"

definition process_glyph_bitmap :: "'img opencv \<Rightarrow> mask \<Rightarrow> error + glyph" where
  "process_glyph_bitmap cv binary =
     (case findContours_ccomp cv binary of (contours, hierarchy) \<Rightarrow>
        if contours = [] \<or> hierarchy = None
        then Inr \<lparr>paths = [],
                  advance_width = py_round (float_mul (float_of_int UNITS_PER_EM) (fl (5 / 10))),
                  lsb = 0\<rparr>
        else (case contours_to_font_paths cv contours hierarchy (ASCENDER - DESCENDER) of
            Inl e \<Rightarrow> Inl e
          | Inr path_groups \<Rightarrow>
              (case boundingRect (concat contours) of (_, _, bw, bh) \<Rightarrow>
                 let scale = int_truediv (ASCENDER - DESCENDER) (max bh 1);
                     raw_width = py_round (float_mul (float_of_int bw) scale);
                     bearing = py_round (float_mul (float_of_int raw_width) (fl (12 / 100)));
                     advance = raw_width + bearing * 2
                 in Inr \<lparr>paths = map (shift_path bearing) path_groups,
                         advance_width = advance, lsb = bearing\<rparr>)))"


section \<open>The segmenter (segment.py)\<close>

text \<open>\<open>sorted(heights)[len(heights) // 2]\<close>, for a non-empty list.\<close>

definition median_height :: "bbox list \<Rightarrow> int" where
  "median_height boxes =
     (let heights = map (\<lambda>(_, _, _, h). h) boxes in sort heights ! (length heights div 2))"

text \<open>
  The inner loop of \<open>merge_close_bboxes\<close>: the search for a parent of the small box \<open>i\<close>.
  \<open>best_parent\<close> and \<open>best_dist\<close> change together, so the pair is one optional value, \<open>None\<close>
  standing for \<open>(None, inf)\<close>.
\<close>

definition parent_step ::
  "int \<Rightarrow> nat set \<Rightarrow> nat \<Rightarrow> bbox \<Rightarrow> nat \<times> bbox \<Rightarrow> (nat \<times> int) option \<Rightarrow> (nat \<times> int) option" where
  "parent_step median_h used i small cand best =
     (case small of (x1, y1, w1, h1) \<Rightarrow>
      case cand of (j, (x2, y2, w2, h2)) \<Rightarrow>
        if j = i \<or> j \<in> used then best
        else if y1 < y2 \<and>
                \<bar>float_sub (float_add (float_of_int x1) (int_truediv w1 2))
                           (float_add (float_of_int x2) (int_truediv w2 2))\<bar> < of_int w2
        then let dist = y2 - (y1 + h1)
             in if of_int dist < float_mul (float_of_int median_h) (fl (8 / 10))
                   \<and> (case best of None \<Rightarrow> True | Some (_, best_dist) \<Rightarrow> dist < best_dist)
                then Some (j, dist) else best
        else best)"

definition find_parent ::
  "int \<Rightarrow> nat set \<Rightarrow> (nat \<times> bbox) list \<Rightarrow> nat \<Rightarrow> bbox \<Rightarrow> (nat \<times> int) option" where
  "find_parent median_h used indexed i small =
     fold (parent_step median_h used i small) indexed None"

definition union_box :: "bbox \<Rightarrow> bbox \<Rightarrow> bbox" where
  "union_box a b =
     (case a of (x1, y1, w1, h1) \<Rightarrow> case b of (px, py, pw, ph) \<Rightarrow>
        let mx = min x1 px; my = min y1 py;
            mx2 = max (x1 + w1) (px + pw); my2 = max (y1 + h1) (py + ph)
        in (mx, my, mx2 - mx, my2 - my))"

definition is_small :: "int \<Rightarrow> bbox \<Rightarrow> bool" where
  "is_small median_h b =
     (case b of (x1, y1, w1, h1) \<Rightarrow>
        of_int h1 < float_mul (float_of_int median_h) (fl (4 / 10))
        \<and> of_int w1 < float_mul (float_of_int median_h) (fl (4 / 10)))"

text \<open>
  The body of the outer loop, on the state \<open>(merged, used)\<close>. (The source also passes the
  image to \<open>merge_close_bboxes\<close>, and its height to \<open>sort_reading_order\<close>; neither
  function reads it.)
\<close>

definition merge_step ::
  "bbox list \<Rightarrow> int \<Rightarrow> (nat \<times> bbox) list \<Rightarrow> nat \<times> bbox \<Rightarrow> bbox list \<times> nat set
     \<Rightarrow> bbox list \<times> nat set" where
  "merge_step boxes median_h indexed entry state =
     (case entry of (i, box1) \<Rightarrow> case state of (merged, used) \<Rightarrow>
        if i \<in> used then (merged, used)
        else (case (if is_small median_h box1
                    then find_parent median_h used indexed i box1 else None) of
            Some (best_parent, _) \<Rightarrow>
              (merged @ [union_box box1 (boxes ! best_parent)],
               insert best_parent (insert i used))
          | None \<Rightarrow>
              if i \<notin> used then (merged @ [box1], insert i used) else (merged, used)))"

definition merge_close_bboxes :: "(int \<times> int \<times> int \<times> int \<times> contour) list \<Rightarrow> bbox list" where
  "merge_close_bboxes bboxes =
     (let boxes = map (\<lambda>(x, y, w, h, _). (x, y, w, h)) bboxes
      in if boxes = [] then boxes
         else let median_h = median_height boxes;
                  indexed = sort_key (\<lambda>(_, (_, y, _, _)). y) (enumerate 0 boxes)
              in fst (fold (merge_step boxes median_h indexed) indexed ([], {})))"

text \<open>
  \<open>sort_reading_order\<close>: the boxes sorted by \<open>y\<close> are cut into lines, a box opening a new
  line when its \<open>y\<close> is at least half a median height from the line's first box; each line
  is then sorted by \<open>x\<close>. The state of the grouping loop is
  \<open>(lines, current_line, current_y)\<close>.
\<close>

definition line_step ::
  "rat \<Rightarrow> bbox \<Rightarrow> bbox list list \<times> bbox list \<times> int \<Rightarrow> bbox list list \<times> bbox list \<times> int" where
  "line_step line_threshold b state =
     (case state of (lines, current_line, current_y) \<Rightarrow>
      case b of (_, y, _, _) \<Rightarrow>
        if \<bar>of_int (y - current_y)\<bar> < line_threshold
        then (lines, current_line @ [b], current_y)
        else (lines @ [current_line], [b], y))"

definition sort_reading_order :: "bbox list \<Rightarrow> bbox list" where
  "sort_reading_order bboxes =
     (if bboxes = [] then bboxes
      else let median_h = median_height bboxes;
               line_threshold = float_mul (float_of_int median_h) (fl (5 / 10));
               sorted_by_y = sort_key (\<lambda>(_, y, _, _). y) bboxes
           in (case sorted_by_y of
                 [] \<Rightarrow> []
               | first # others \<Rightarrow>
                   (case fold (line_step line_threshold) others
                           ([], [first], (case first of (_, y, _, _) \<Rightarrow> y)) of
                      (lines, current_line, _) \<Rightarrow>
                        concat (map (sort_key (\<lambda>(x, _, _, _). x)) (lines @ [current_line])))))"

text \<open>
  The pairing loop: box \<open>i\<close> goes with letter \<open>i\<close> of the phrase, the loop ends with the
  shorter list, and a letter seen before is skipped. \<open>seen\<close> holds the keys of
  \<open>seen_chars\<close>.
\<close>

fun pair_blobs :: "mask \<Rightarrow> bbox list \<Rightarrow> pystr list \<Rightarrow> pystr list \<Rightarrow> (pystr \<times> mask) list" where
  "pair_blobs binary [] chars seen = []"
| "pair_blobs binary (b # bs) [] seen = []"
| "pair_blobs binary ((x, y, w, h) # bs) (char # chars) seen =
     (let pad = 4;
          y1 = max 0 (y - pad);
          y2 = min (int (length binary)) (y + h + pad);
          x1 = max 0 (x - pad);
          x2 = min (int (width binary)) (x + w + pad);
          cropped = slice2 binary y1 y2 x1 x2
      in if char \<notin> set seen
         then (char, cropped) # pair_blobs binary bs chars (char # seen)
         else pair_blobs binary bs chars seen)"

definition segment_characters ::
  "'img opencv \<Rightarrow> unicode \<Rightarrow> mask \<Rightarrow> pystr \<Rightarrow> error + (pystr \<times> mask) list" where
  "segment_characters cv U binary pangram =
     (let contours = findContours_external cv binary
      in if contours = [] then Inl NoCharactersFound
         else let bboxes = concat (map (\<lambda>contour.
                     case boundingRect contour of (x, y, w, h) \<Rightarrow>
                       if 5 < w \<and> 5 < h then [(x, y, w, h, contour)] else []) contours)
              in if bboxes = [] then Inl NoValidRegions
                 else let merged = merge_close_bboxes bboxes;
                          sorted_bboxes = sort_reading_order merged;
                          pangram_chars = filter (str_isalpha U)
                                            (map (\<lambda>c. [c]) (str_lower U pangram))
                      in Inr (pair_blobs binary sorted_bboxes pangram_chars []))"


section \<open>The photo binarizer (preprocess.py)\<close>

text \<open>
  \<open>result[labels == i] = 255\<close>: every pixel whose label is \<open>i\<close> becomes 255. The label image
  has the shape of the mask.
\<close>

definition paint_label :: "nat list list \<Rightarrow> nat \<Rightarrow> mask \<Rightarrow> mask" where
  "paint_label labels i result =
     map (\<lambda>(lrow, rrow). map (\<lambda>(l, v). if l = i then 255 else v) (zip lrow rrow))
         (zip labels result)"

definition remove_small_components :: "'img opencv \<Rightarrow> mask \<Rightarrow> nat \<Rightarrow> mask" where
  "remove_small_components cv binary min_area =
     (case connectedComponentsWithStats cv binary of (num_labels, labels, area) \<Rightarrow>
        fold (\<lambda>i result. if min_area \<le> area ! i then paint_label labels i result else result)
             [1..<num_labels]
             (map (\<lambda>row. map (\<lambda>_. 0) row) binary))"

definition preprocess :: "'img opencv \<Rightarrow> 'img \<Rightarrow> mask" where
  "preprocess cv img =
     (let gray = cvtColor cv img;
          blurred = GaussianBlur cv gray;
          binary = adaptiveThreshold cv blurred;
          cleaned = morphologyEx cv binary
      in remove_small_components cv cleaned 50)"

section \<open>The font assembler (fontgen.py)\<close>

text \<open>
  A Python \<open>dict\<close> is an association list in insertion order: \<open>d[k] = v\<close> is
  \<^const>\<open>AList.update\<close>, which overwrites in place or appends, and a lookup is
  \<^const>\<open>map_of\<close>. \<open>font_asset\<close> holds what \<open>create_font\<close> hands to the font builder: the
  glyph order, the character map, the glyph table and the metrics (the family and style
  names, the vertical metrics and the OS/2 values are constants of the source).

  fontTools is a parameter:
  \<^item> \<open>pen_glyph\<close>: the glyph a \<open>TTGlyphPen\<close> returns from \<open>pen.glyph()\<close> after the given closed
    contours were drawn (one \<open>moveTo\<close>, the \<open>lineTo\<close>s and \<open>closePath\<close> each), \<open>None\<close> when
    it raises; the glyph type \<open>'g\<close> is left open;
  \<^item> \<open>font_save\<close>: the bytes the builder's setup calls followed by \<open>font.save\<close> produce
    from the tables, for the plain flavor (\<open>False\<close>) and for \<open>woff2\<close> (\<open>True\<close>), \<open>None\<close> when
    any of these calls raises.
\<close>

record 'g font_asset =
  glyph_order :: "string list"
  cmap :: "(nat \<times> string) list"
  glyf :: "(string \<times> 'g) list"
  metrics :: "(string \<times> int \<times> int) list"

record 'g fonttools =
  pen_glyph :: "contour list \<Rightarrow> 'g option"
  font_save :: "'g font_asset \<Rightarrow> bool \<Rightarrow> uint8 list option"

text \<open>The first loop: \<open>uni%04X\<close> names in sorted key order.\<close>

fun glyph_names_loop :: "pystr list \<Rightarrow> string list \<Rightarrow> error + string list" where
  "glyph_names_loop [] glyph_names = Inr glyph_names"
| "glyph_names_loop (c # cs) glyph_names =
     (case py_ord c of
        Inl e \<Rightarrow> Inl e
      | Inr n \<Rightarrow> glyph_names_loop cs (glyph_names @ [uni_name n]))"

text \<open>The character map loop, in the dictionary's own order.\<close>

fun cmap_loop :: "unicode \<Rightarrow> pystr list \<Rightarrow> (nat \<times> string) list \<Rightarrow> error + (nat \<times> string) list" where
  "cmap_loop U [] cm = Inr cm"
| "cmap_loop U (char # rest) cm =
     (case py_ord char of
        Inl e \<Rightarrow> Inl e
      | Inr n \<Rightarrow>
          let glyph_name = uni_name n;
              cm = AList.update n glyph_name cm
          in if str_islower U char
             then (case py_ord (str_upper U char) of
                     Inl e \<Rightarrow> Inl e
                   | Inr u \<Rightarrow> cmap_loop U rest (AList.update u glyph_name cm))
             else cmap_loop U rest cm)"

definition build_cmap :: "unicode \<Rightarrow> (pystr \<times> glyph) list \<Rightarrow> error + (nat \<times> string) list" where
  "build_cmap U glyphs = cmap_loop U (map fst glyphs) [(32, ''space'')]"

definition notdef_outline :: "contour list" where
  "notdef_outline =
     [[(100, 0), (100, 700), (500, 700), (500, 0)],
      [(150, 50), (450, 50), (450, 650), (150, 650)]]"

text \<open>The pen commands of one user glyph: every path of at least three points.\<close>

definition pen_contours :: "glyph \<Rightarrow> contour list" where
  "pen_contours glyph_data = filter (\<lambda>pts. \<not> length pts < 3) (map points (paths glyph_data))"

text \<open>A \<open>pen.glyph()\<close> outside a \<open>try\<close>: its exception leaves \<open>create_font\<close>.\<close>

definition pen_glyph_or_raise :: "'g fonttools \<Rightarrow> contour list \<Rightarrow> error + 'g" where
  "pen_glyph_or_raise ft pen =
     (case pen_glyph ft pen of None \<Rightarrow> Inl LibraryError | Some g \<Rightarrow> Inr g)"

text \<open>
  The loops over the user glyphs in sorted key order; \<open>ord\<close> cannot fail in them, the
  first loop having passed over the same keys. When \<open>pen.glyph()\<close> raises, the glyph is the
  one of a fresh, empty pen.
\<close>

fun glyf_loop ::
  "'g fonttools \<Rightarrow> (pystr \<times> glyph) list \<Rightarrow> (string \<times> 'g) list \<Rightarrow> error + (string \<times> 'g) list" where
  "glyf_loop ft [] glyph_table = Inr glyph_table"
| "glyf_loop ft ((char, glyph_data) # rest) glyph_table =
     (case py_ord char of
        Inl e \<Rightarrow> Inl e
      | Inr n \<Rightarrow>
          (case (case pen_glyph ft (pen_contours glyph_data) of
                   Some g \<Rightarrow> Inr g
                 | None \<Rightarrow> pen_glyph_or_raise ft []) of
             Inl e \<Rightarrow> Inl e
           | Inr g \<Rightarrow> glyf_loop ft rest (AList.update (uni_name n) g glyph_table)))"

fun metrics_loop ::
  "(pystr \<times> glyph) list \<Rightarrow> (string \<times> int \<times> int) list \<Rightarrow> error + (string \<times> int \<times> int) list" where
  "metrics_loop [] m = Inr m"
| "metrics_loop ((char, glyph_data) # rest) m =
     (case py_ord char of
        Inl e \<Rightarrow> Inl e
      | Inr n \<Rightarrow>
          metrics_loop rest
            (AList.update (uni_name n) (advance_width glyph_data, lsb glyph_data) m))"

text \<open>\<open>create_font\<close> up to the tables, in the order of the source.\<close>

definition font_tables ::
  "unicode \<Rightarrow> 'g fonttools \<Rightarrow> (pystr \<times> glyph) list \<Rightarrow> error + 'g font_asset" where
  "font_tables U ft glyphs =
     (let by_key = sort_key fst glyphs
      in case glyph_names_loop (map fst by_key) [''.notdef'', ''space''] of
           Inl e \<Rightarrow> Inl e
         | Inr glyph_names \<Rightarrow>
        (case build_cmap U glyphs of
           Inl e \<Rightarrow> Inl e
         | Inr cm \<Rightarrow>
        (case pen_glyph_or_raise ft notdef_outline of
           Inl e \<Rightarrow> Inl e
         | Inr notdef \<Rightarrow>
        (case pen_glyph_or_raise ft [] of
           Inl e \<Rightarrow> Inl e
         | Inr space \<Rightarrow>
        (case glyf_loop ft by_key [(''.notdef'', notdef), (''space'', space)] of
           Inl e \<Rightarrow> Inl e
         | Inr glyph_table \<Rightarrow>
        (case metrics_loop by_key
                [(''.notdef'', (600, 100)), (''space'', (UNITS_PER_EM div 4, 0))] of
           Inl e \<Rightarrow> Inl e
         | Inr m \<Rightarrow>
             Inr \<lparr>glyph_order = glyph_names, cmap = cm, glyf = glyph_table, metrics = m\<rparr>))))))"

text \<open>\<open>create_font\<close>: the tables, saved once as TTF and once more with the woff2 flavor.\<close>

definition create_font ::
  "unicode \<Rightarrow> 'g fonttools \<Rightarrow> (pystr \<times> glyph) list \<Rightarrow> error + uint8 list \<times> uint8 list" where
  "create_font U ft glyphs =
     (case font_tables U ft glyphs of
        Inl e \<Rightarrow> Inl e
      | Inr font \<Rightarrow>
          (case font_save ft font False of
             None \<Rightarrow> Inl LibraryError
           | Some ttf_bytes \<Rightarrow>
               (case font_save ft font True of
                  None \<Rightarrow> Inl LibraryError
                | Some woff2_bytes \<Rightarrow> Inr (ttf_bytes, woff2_bytes))))"

text \<open>
  \<open>create_font_from_chars\<close>: vectorize every bitmap, keep the glyphs that have paths, and
  refuse to build a font from none.
\<close>

fun vectorize_loop ::
  "'img opencv \<Rightarrow> (pystr \<times> mask) list \<Rightarrow> (pystr \<times> glyph) list \<Rightarrow> error + (pystr \<times> glyph) list" where
  "vectorize_loop cv [] glyphs = Inr glyphs"
| "vectorize_loop cv ((char, bitmap) # rest) glyphs =
     (case process_glyph_bitmap cv bitmap of
        Inl e \<Rightarrow> Inl e
      | Inr glyph_data \<Rightarrow>
          if paths glyph_data \<noteq> []
          then vectorize_loop cv rest (AList.update char glyph_data glyphs)
          else vectorize_loop cv rest glyphs)"

definition create_font_from_chars ::
  "'img opencv \<Rightarrow> unicode \<Rightarrow> 'g fonttools \<Rightarrow> (pystr \<times> mask) list
     \<Rightarrow> error + uint8 list \<times> uint8 list" where
  "create_font_from_chars cv U ft char_bitmaps =
     (case vectorize_loop cv char_bitmaps [] of
        Inl e \<Rightarrow> Inl e
      | Inr glyphs \<Rightarrow>
          if glyphs = [] then Inl NoValidGlyphs else create_font U ft glyphs)"

section \<open>The font endpoint (main.py)\<close>

text \<open>
  \<open>/api/generate-font\<close>: an empty \<open>glyphs\<close> object is answered with status 400 before the
  assembler is called; any exception of the assembler becomes status 500.
\<close>

definition generate_font_endpoint ::
  "unicode \<Rightarrow> 'g fonttools \<Rightarrow> (pystr \<times> glyph) list \<Rightarrow> nat + uint8 list \<times> uint8 list" where
  "generate_font_endpoint U ft glyphs =
     (if glyphs = [] then Inl 400
      else (case create_font U ft glyphs of
              Inl e \<Rightarrow> Inl 500
            | Inr binaries \<Rightarrow> Inr binaries))"

section \<open>Notions used in the statements\<close>

text \<open>The ink of a mask: the values of its foreground pixels, in row-major order.\<close>

definition ink :: "mask \<Rightarrow> uint8 list" where
  "ink m = filter (\<lambda>v. v \<noteq> 0) (concat m)"

text \<open>
  The shoelace sum as a sum over the cyclic pairs of neighbours, and the winding
  convention: an outer path has non-positive signed area, a hole non-negative.
\<close>

definition cross :: "point \<Rightarrow> point \<Rightarrow> int" where
  "cross p q = fst p * snd q - fst q * snd p"

definition cross_sum :: "point list \<Rightarrow> int" where
  "cross_sum ps = (\<Sum>i<length ps. cross (ps ! i) (ps ! ((i + 1) mod length ps)))"

definition winding_ok :: "path \<Rightarrow> bool" where
  "winding_ok p = (if is_hole p then 0 \<le> polygon_area (points p) else polygon_area (points p) \<le> 0)"

text \<open>The path the loop of \<open>contours_to_font_paths\<close> appends for contour \<open>i\<close>.\<close>

definition emitted_path :: "'img opencv \<Rightarrow> hierarchy \<Rightarrow> int \<Rightarrow> int \<Rightarrow> rat \<Rightarrow> int \<Rightarrow> nat \<Rightarrow> contour \<Rightarrow> path" where
  "emitted_path cv hier bx by scale th i contour =
     (let hole = (snd (snd (snd (hier ! i))) \<noteq> - 1);
          tr = map (transform_point bx by scale th) (approxPolyDP cv contour)
      in \<lparr>points = (if (\<not> hole \<and> 0 < polygon_area tr) \<or> (hole \<and> polygon_area tr < 0)
                    then rev tr else tr),
          is_hole = hole\<rparr>)"

text \<open>
  Connected components with 8-connectivity: the foreground pixels of a mask as
  \<open>(row, column)\<close> pairs, adjacency of two pixels (rows and columns at most one apart), and
  the component of a foreground pixel as the pixels reachable from it through adjacent
  foreground pixels. \<open>labelling8\<close> is the contract of
  \<open>cv2.connectedComponentsWithStats(binary, connectivity=8)\<close>: a label image of the mask's
  shape, label 0 for exactly the background, equal labels for exactly the pixels of one
  component, and the pixel count of every label as its area.
\<close>

definition fg :: "mask \<Rightarrow> (nat \<times> nat) set" where
  "fg m = {(r, c). r < length m \<and> c < length (m ! r) \<and> m ! r ! c \<noteq> 0}"

definition adjacent8 :: "nat \<times> nat \<Rightarrow> nat \<times> nat \<Rightarrow> bool" where
  "adjacent8 p q =
     (case p of (r1, c1) \<Rightarrow> case q of (r2, c2) \<Rightarrow>
        r1 \<le> r2 + 1 \<and> r2 \<le> r1 + 1 \<and> c1 \<le> c2 + 1 \<and> c2 \<le> c1 + 1)"

definition fg_edges :: "mask \<Rightarrow> ((nat \<times> nat) \<times> (nat \<times> nat)) set" where
  "fg_edges m = {(p, q). p \<in> fg m \<and> q \<in> fg m \<and> adjacent8 p q}"

definition component :: "mask \<Rightarrow> nat \<times> nat \<Rightarrow> (nat \<times> nat) set" where
  "component m p = {q. (p, q) \<in> (fg_edges m)\<^sup>*}"

definition labelling8 :: "mask \<Rightarrow> nat \<times> nat list list \<times> nat list \<Rightarrow> bool" where
  "labelling8 m res =
     (case res of (num_labels, labels, area) \<Rightarrow>
        length labels = length m
        \<and> (\<forall>r<length m. length (labels ! r) = length (m ! r))
        \<and> length area = num_labels
        \<and> (\<forall>r<length m. \<forall>c<length (m ! r).
              labels ! r ! c < num_labels \<and> (labels ! r ! c = 0 \<longleftrightarrow> m ! r ! c = 0))
        \<and> (\<forall>p \<in> fg m. \<forall>q \<in> fg m.
              labels ! fst p ! snd p = labels ! fst q ! snd q \<longleftrightarrow> q \<in> component m p)
        \<and> (\<forall>i<num_labels.
              area ! i = card {(r, c). r < length m \<and> c < length (m ! r) \<and> labels ! r ! c = i}))"

definition same_shape :: "'a list list \<Rightarrow> 'b list list \<Rightarrow> bool" where
  "same_shape a b = (length a = length b \<and> (\<forall>r<length a. length (a ! r) = length (b ! r)))"

text \<open>The mask the photo pipeline hands to the small-component filter.\<close>

definition closed_mask :: "'img opencv \<Rightarrow> 'img \<Rightarrow> mask" where
  "closed_mask cv img = morphologyEx cv (adaptiveThreshold cv (GaussianBlur cv (cvtColor cv img)))"

text \<open>
  The code points one key writes in the character map loop: its own, and that of its
  upper-case form when the key is lower case.
\<close>

definition cmap_writes :: "unicode \<Rightarrow> pystr \<Rightarrow> nat \<Rightarrow> bool" where
  "cmap_writes U char c =
     (py_ord char = Inr c \<or> (str_islower U char \<and> py_ord (str_upper U char) = Inr c))"

text \<open>
  Sample library results, for evaluating the pipeline on concrete inputs: a ring (an outer
  square with a square hole) as the traced contours with their hierarchy, one 6 by 6
  square as the only external contour, polygon simplification that keeps every point,
  images that are grey already and pass the filters unchanged, the labelling of a mask
  that is one single component, and a font library whose pen keeps the contours it is
  given and which saves every font as the four signature bytes of its format.
\<close>

definition square_mask :: mask where
  "square_mask = replicate 6 (replicate 6 255)"

definition sample_fonttools :: "contour list fonttools" where
  "sample_fonttools = \<lparr>
     pen_glyph = Some,
     font_save = (\<lambda>font woff2. Some (if woff2 then [119, 79, 70, 50] else [0, 1, 0, 0])) \<rparr>"

definition sample_cv :: "mask opencv" where
  "sample_cv = \<lparr>
     findContours_external = (\<lambda>_. [[(0, 0), (0, 5), (5, 5), (5, 0)]]),
     findContours_ccomp = (\<lambda>_. ([[(0, 0), (0, 9), (9, 9), (9, 0)], [(3, 3), (6, 3), (6, 6), (3, 6)]],
                                Some [(- 1, - 1, 1, - 1), (- 1, - 1, - 1, 0)])),
     approxPolyDP = (\<lambda>c. c),
     connectedComponentsWithStats = (\<lambda>m. (2, map (map (\<lambda>_. 1)) m, [0, length (concat m)])),
     cvtColor = (\<lambda>img. img),
     GaussianBlur = (\<lambda>m. m),
     adaptiveThreshold = (\<lambda>m. m),
     morphologyEx = (\<lambda>m. m) \<rparr>"

section \<open>Verification of the number model\<close>

text \<open>
  \<open>fl\<close> is rounding to the nearest number with a 53-bit mantissa: the exponent it uses
  brackets the argument, the result is within half a unit in the last place, integers
  below \<open>2\<^sup>5\<^sup>3\<close> are kept, and the sign is kept.
\<close>

lemma py_round_of_int [simp]: "py_round (of_int n) = n"
  by (simp add: py_round_def)

lemma py_round_nonneg: "0 \<le> q \<Longrightarrow> 0 \<le> py_round q"
  by (auto simp: py_round_def Let_def)

lemma fl_nonneg: "0 \<le> q \<Longrightarrow> 0 \<le> fl q"
proof -
  assume q: "0 \<le> q"
  have u: "(0::rat) < 2 powi k" for k by simp
  show ?thesis
    unfolding fl_def Let_def using q u py_round_nonneg[of "q / 2 powi (float_exponent q - 52)"]
    by (auto intro!: mult_nonneg_nonneg divide_nonneg_pos simp: less_imp_le)
qed

lemma float_exponent_bounds:
  assumes "q \<noteq> 0"
  shows "2 powi float_exponent q \<le> \<bar>q\<bar>" and "\<bar>q\<bar> < 2 powi (float_exponent q + 1)"
proof -
  obtain a b where ab: "quotient_of \<bar>q\<bar> = (a, b)" by (cases "quotient_of \<bar>q\<bar>")
  have b: "0 < b" using quotient_of_denom_pos[OF ab] .
  have q: "\<bar>q\<bar> = of_int a / of_int b" using quotient_of_div[OF ab] .
  have a: "0 < a"
  proof -
    have "0 < \<bar>q\<bar>" using assms by simp
    then have "(0::rat) < of_int a / of_int b" by (simp add: q)
    with b show ?thesis by (simp add: zero_less_divide_iff)
  qed
  define la where "la = bitlen a"
  define lb where "lb = bitlen b"
  have bits: "2 powi (bitlen x - 1) \<le> (of_int x :: rat) \<and> (of_int x :: rat) < 2 powi bitlen x"
    if "0 < x" for x
  proof -
    from that have pos: "1 \<le> bitlen x" using bitlen_eq_zero_iff[of x] bitlen_nonneg[of x] by linarith
    from bitlen_bounds[OF that]
    have "(of_int (2 ^ nat (bitlen x - 1)) :: rat) \<le> of_int x" "(of_int x :: rat) < of_int (2 ^ nat (bitlen x))"
      by (simp_all only: of_int_le_iff of_int_less_iff)
    then show ?thesis using pos by (simp add: power_int_def)
  qed
  note la = bits[OF a, folded la_def] and lb = bits[OF b, folded lb_def]
  have up: "\<bar>q\<bar> < 2 powi (la - lb + 1)"
  proof -
    have "of_int a / of_int b < (2 powi la :: rat) / 2 powi (lb - 1)"
      using la lb a b by (intro frac_less) auto
    also have "\<dots> = 2 powi (la - (lb - 1))" by (simp add: power_int_diff)
    finally show ?thesis by (simp add: q algebra_simps)
  qed
  have low: "2 powi (la - lb - 1) \<le> \<bar>q\<bar>"
  proof -
    have "(2 powi (la - 1) :: rat) / 2 powi lb \<le> of_int a / of_int b"
      using la lb a b by (intro frac_le) auto
    moreover have "(2 powi (la - 1) :: rat) / 2 powi lb = 2 powi (la - 1 - lb)"
      by (simp add: power_int_diff)
    ultimately show ?thesis by (simp add: q algebra_simps)
  qed
  have e: "float_exponent q = (if 2 powi (la - lb) \<le> \<bar>q\<bar> then la - lb else la - lb - 1)"
    by (simp add: float_exponent_def ab Let_def la_def lb_def)
  show "2 powi float_exponent q \<le> \<bar>q\<bar>" using low by (simp add: e)
  show "\<bar>q\<bar> < 2 powi (float_exponent q + 1)" using up by (auto simp: e not_le)
qed

lemma fl_of_int:
  assumes "\<bar>n\<bar> < 2 ^ 53"
  shows "fl (of_int n) = of_int n"
proof (cases "n = 0")
  case True
  then show ?thesis by (simp add: fl_def)
next
  case False
  define e where "e = float_exponent (of_int n)"
  have "bitlen 1 = 1" by (simp add: bitlen_alt_def)
  then have "e \<le> bitlen \<bar>n\<bar> - 1"
    by (simp add: e_def float_exponent_def Let_def flip: of_int_abs)
  moreover have "bitlen \<bar>n\<bar> \<le> 53" using assms by (simp add: bitlen_le_iff_power)
  ultimately have e: "e \<le> 52" by simp
  define s where "s = nat (52 - e)"
  have u: "(2::rat) powi (e - 52) = 1 / 2 ^ s"
    using e by (simp add: s_def power_int_def divide_simps)
  have "of_int n / (2 powi (e - 52) :: rat) = of_int (n * 2 ^ s)"
    by (simp add: u)
  then have "py_round (of_int n / 2 powi (e - 52)) = n * 2 ^ s"
    by (simp only: py_round_of_int)
  then show ?thesis
    using False by (simp add: fl_def Let_def e_def[symmetric] u)
qed


lemma py_round_error: "\<bar>of_int (py_round x) - x\<bar> \<le> 1 / 2"
proof -
  define f where "f = \<lfloor>x\<rfloor>"
  define d where "d = x - of_int f"
  have d: "0 \<le> d" "d < 1" unfolding d_def f_def by linarith+
  have x: "x = of_int f + d" by (simp add: d_def)
  have "py_round x = f \<and> d \<le> 1 / 2 \<or> py_round x = f + 1 \<and> 1 / 2 \<le> d"
    unfolding py_round_def Let_def f_def[symmetric] d_def[symmetric] by auto
  then show ?thesis using d unfolding x by auto
qed

lemma fl_error:
  assumes "q \<noteq> 0"
  shows "\<bar>fl q - q\<bar> \<le> 2 powi (float_exponent q - 53)"
proof -
  define u :: rat where "u = 2 powi (float_exponent q - 52)"
  have u: "0 < u" by (simp add: u_def)
  have "fl q - q = (of_int (py_round (q / u)) - q / u) * u"
    using assms u by (simp add: fl_def Let_def u_def[symmetric] algebra_simps)
  then have "\<bar>fl q - q\<bar> = \<bar>of_int (py_round (q / u)) - q / u\<bar> * u"
    using u by (simp add: abs_mult)
  also have "\<dots> \<le> 1 / 2 * u"
    using py_round_error[of "q / u"] u by (intro mult_right_mono) auto
  also have "1 / 2 * u = 2 powi (float_exponent q - 53)"
    by (simp add: u_def power_int_diff)
  finally show ?thesis .
qed

lemma fl_numeral: "(numeral n :: int) < 2 ^ 53 \<Longrightarrow> fl (numeral n) = numeral n"
  using fl_of_int[of "numeral n"] by simp

lemma fl_neg_numeral: "(numeral n :: int) < 2 ^ 53 \<Longrightarrow> fl (- numeral n) = - numeral n"
  using fl_of_int[of "- numeral n"] by simp

lemma fl_zero: "fl 0 = 0"
  by (simp add: fl_def)

lemma fl_one: "fl 1 = 1"
  using fl_of_int[of 1] by simp

lemma float_ops_nonneg:
  "0 \<le> n \<Longrightarrow> 0 \<le> float_of_int n"
  "0 \<le> a \<Longrightarrow> 0 \<le> b \<Longrightarrow> 0 \<le> float_mul a b"
  "0 \<le> m \<Longrightarrow> 0 < k \<Longrightarrow> 0 \<le> int_truediv m k"
  by (auto simp: float_of_int_def float_mul_def int_truediv_def intro!: fl_nonneg)

section \<open>Verification of the single-glyph extractor\<close>

lemma ink_concat: "ink m = concat (map (filter (\<lambda>v. v \<noteq> 0)) m)"
  by (simp add: ink_def filter_concat)

lemma ink_append: "ink (a @ b) = ink a @ ink b"
  by (simp add: ink_def)

lemma set_nonzero_points:
  "set (nonzero_points m) = {(int c, int r) | r c. r < length m \<and> c < length (m ! r) \<and> m ! r ! c \<noteq> 0}"
  by (auto simp: nonzero_points_def)

lemma concat_map_window:
  assumes "\<And>i. i < length xs \<Longrightarrow> f (xs ! i) \<noteq> [] \<Longrightarrow> a \<le> i \<and> i < b"
  shows "concat (map f (take (b - a) (drop a xs))) = concat (map f xs)"
proof -
  have pre: "concat (map f (take a xs)) = []"
  proof -
    have "f x = []" if "x \<in> set (take a xs)" for x
    proof -
      from that obtain i where "i < length (take a xs)" "take a xs ! i = x"
        by (auto simp: in_set_conv_nth)
      then have "i < length xs" "i < a" "xs ! i = x" by auto
      with assms[of i] show ?thesis by fastforce
    qed
    then show ?thesis by simp
  qed
  have post: "concat (map f (drop b xs)) = []"
  proof -
    have "f x = []" if "x \<in> set (drop b xs)" for x
    proof -
      from that obtain i where "i < length (drop b xs)" "drop b xs ! i = x"
        by (auto simp: in_set_conv_nth)
      then have "b + i < length xs" "xs ! (b + i) = x" by auto
      with assms[of "b + i"] show ?thesis by fastforce
    qed
    then show ?thesis by simp
  qed
  show ?thesis
  proof (cases "a \<le> b")
    case True
    have "xs = take a xs @ take (b - a) (drop a xs) @ drop b xs"
      using True by (metis add_diff_inverse_nat append_take_drop_id drop_drop not_less add.commute)
    then have "concat (map f xs) = concat (map f (take a xs)) @ concat (map f (take (b - a) (drop a xs))) @ concat (map f (drop b xs))"
      by (metis concat_append map_append)
    then show ?thesis using pre post by simp
  next
    case False
    then have "\<And>i. i < length xs \<Longrightarrow> f (xs ! i) = []" using assms by force
    then have "concat (map f xs) = []" by (auto simp: in_set_conv_nth)
    then show ?thesis using False by simp
  qed
qed

lemma filter_window:
  assumes "\<And>i. i < length xs \<Longrightarrow> P (xs ! i) \<Longrightarrow> a \<le> i \<and> i < b"
  shows "filter P (take (b - a) (drop a xs)) = filter P xs"
proof -
  have "concat (map (\<lambda>v. if P v then [v] else []) (take (b - a) (drop a xs))) = concat (map (\<lambda>v. if P v then [v] else []) xs)"
    by (rule concat_map_window) (use assms in \<open>auto split: if_splits\<close>)
  moreover have "concat (map (\<lambda>v. if P v then [v] else []) ys) = filter P ys" for ys
    by (induction ys) auto
  ultimately show ?thesis by simp
qed


lemma boundingRect_nonzero:
  assumes ne: "nonzero_points m \<noteq> []"
    and bb: "boundingRect (nonzero_points m) = (x, y, w, h)"
  shows "0 \<le> x" "0 \<le> y" "1 \<le> w" "1 \<le> h" "y + h \<le> int (length m)"
    and "\<And>r c. r < length m \<Longrightarrow> c < length (m ! r) \<Longrightarrow> m ! r ! c \<noteq> 0 \<Longrightarrow>
           x \<le> int c \<and> int c < x + w \<and> y \<le> int r \<and> int r < y + h"
proof -
  let ?ps = "nonzero_points m"
  let ?X = "set (map fst ?ps)" and ?Y = "set (map snd ?ps)"
  have fin: "finite ?X" "finite ?Y" and nonempty: "?X \<noteq> {}" "?Y \<noteq> {}"
    using ne by auto
  have x: "x = Min ?X" and y: "y = Min ?Y"
    and w: "w = Max ?X - Min ?X + 1" and h: "h = Max ?Y - Min ?Y + 1"
    using bb ne by (auto simp: boundingRect_def Let_def)
  have Xnat: "\<And>a. a \<in> ?X \<Longrightarrow> 0 \<le> a" and Ynat: "\<And>b. b \<in> ?Y \<Longrightarrow> 0 \<le> b \<and> b < int (length m)"
    by (auto simp: set_nonzero_points)
  show "0 \<le> x" using Min_in[OF fin(1) nonempty(1)] Xnat x by blast
  show "0 \<le> y" using Min_in[OF fin(2) nonempty(2)] Ynat y by blast
  show "1 \<le> w" using Min_le[OF fin(1) Max_in[OF fin(1) nonempty(1)]] w by simp
  show "1 \<le> h" using Min_le[OF fin(2) Max_in[OF fin(2) nonempty(2)]] h by simp
  show "y + h \<le> int (length m)" using Max_in[OF fin(2) nonempty(2)] Ynat y h by force
  fix r c assume "r < length m" "c < length (m ! r)" "m ! r ! c \<noteq> 0"
  then have "(int c, int r) \<in> set ?ps" by (auto simp: set_nonzero_points)
  then have "int c \<in> ?X" "int r \<in> ?Y" by force+
  then show "x \<le> int c \<and> int c < x + w \<and> y \<le> int r \<and> int r < y + h"
    using Min_le[OF fin(1), of "int c"] Max_ge[OF fin(1), of "int c"]
      Min_le[OF fin(2), of "int r"] Max_ge[OF fin(2), of "int r"] x y w h by simp
qed

lemma py_slice_in_range:
  "0 \<le> i \<Longrightarrow> i \<le> j \<Longrightarrow> j \<le> int (length xs) \<Longrightarrow>
     py_slice xs i j = take (nat j - nat i) (drop (nat i) xs)"
  by (auto simp: py_slice_def clamp_index_def Let_def min_def)

lemma ink_zero_rows: "(\<And>row. row \<in> set m \<Longrightarrow> set row \<subseteq> {0}) \<Longrightarrow> ink m = []"
  by (auto simp: ink_def filter_empty_conv)

lemma ink_zeros: "ink (zeros a b) = []"
  by (auto simp: ink_def zeros_def filter_empty_conv)

lemma ink_slice2:
  assumes ne: "nonzero_points m \<noteq> []"
    and bb: "boundingRect (nonzero_points m) = (x, y, w, h)"
  shows "ink (slice2 m y (y + h) x (x + w)) = ink m"
proof -
  note B = boundingRect_nonzero[OF ne bb]
  let ?nz = "\<lambda>v::uint8. v \<noteq> 0"
  have row: "filter ?nz (py_slice row x (x + w)) = filter ?nz row" if "row \<in> set m" for row
  proof -
    from that obtain r where r: "r < length m" "m ! r = row" by (auto simp: in_set_conv_nth)
    have "clamp_index (length row) x \<le> c \<and> c < clamp_index (length row) (x + w)"
      if "c < length row" "row ! c \<noteq> 0" for c
      using B(6)[of r c] r that B(1) B(3) by (auto simp: clamp_index_def)
    then show ?thesis unfolding py_slice_def Let_def by (intro filter_window) blast
  qed
  have rows: "py_slice m y (y + h) = take (nat (y + h) - nat y) (drop (nat y) m)"
    using B by (intro py_slice_in_range) auto
  have sub: "set (py_slice m y (y + h)) \<subseteq> set m"
    unfolding rows by (meson set_drop_subset set_take_subset subset_trans)
  have "ink (slice2 m y (y + h) x (x + w))
      = concat (map (\<lambda>row. filter ?nz (py_slice row x (x + w))) (py_slice m y (y + h)))"
    by (simp add: ink_concat slice2_def comp_def)
  also have "\<dots> = concat (map (filter ?nz) (py_slice m y (y + h)))"
    using row sub by (intro arg_cong[where f = concat] map_cong) auto
  also have "\<dots> = concat (map (filter ?nz) m)"
    unfolding rows
  proof (rule concat_map_window)
    fix r assume r: "r < length m" "filter ?nz (m ! r) \<noteq> []"
    then obtain v where "v \<in> set (m ! r)" "v \<noteq> 0" by (auto simp: filter_empty_conv)
    then obtain c where "c < length (m ! r)" "m ! r ! c \<noteq> 0" by (auto simp: in_set_conv_nth)
    from B(6)[OF r(1) this] B(2) B(4) show "nat y \<le> r \<and> r < nat (y + h)" by linarith
  qed
  finally show ?thesis by (simp add: ink_concat)
qed

lemma ink_assign_block:
  assumes zero: "\<And>row. row \<in> set canvas \<Longrightarrow> set row \<subseteq> {0}"
    and len: "length cropped \<le> length (py_slice canvas oy (oy + h))"
  shows "ink (assign_block canvas oy h ox w cropped) = ink cropped"
proof -
  let ?nz = "\<lambda>v::uint8. v \<noteq> 0"
  let ?cs = "py_slice canvas oy (oy + h)"
  have sub: "set ?cs \<subseteq> set canvas"
    unfolding py_slice_def Let_def by (meson set_drop_subset set_take_subset subset_trans)
  have z: "filter ?nz (take n crow) = []" "filter ?nz (drop n crow) = []" if "crow \<in> set ?cs" for crow n
    using zero[of crow] that sub
    by (auto simp: filter_empty_conv dest!: in_set_takeD in_set_dropD)
  have mid: "ink (map (\<lambda>(crow, brow). take (nat ox) crow @ brow @ drop (nat (ox + w)) crow) (zip ?cs cropped))
      = concat (map (\<lambda>(crow, brow). filter ?nz brow) (zip ?cs cropped))"
    unfolding ink_concat map_map
    by (intro arg_cong[where f = concat] map_cong) (auto simp: z dest: set_zip_leftD)
  also have "\<dots> = concat (map (filter ?nz) (map snd (zip ?cs cropped)))"
    by (simp add: comp_def case_prod_unfold)
  also have "map snd (zip ?cs cropped) = cropped"
    using len by (simp add: map_snd_zip_take)
  finally have mid': "ink (map (\<lambda>(crow, brow). take (nat ox) crow @ brow @ drop (nat (ox + w)) crow) (zip ?cs cropped)) = ink cropped"
    by (simp add: ink_concat)
  have "ink (take (nat oy) canvas) = []" "ink (drop (nat (oy + h)) canvas) = []"
    using zero by (auto intro!: ink_zero_rows dest!: in_set_takeD in_set_dropD)
  then show ?thesis
    unfolding assign_block_def ink_append mid' by simp
qed

lemma length_py_slice_in_range:
  "0 \<le> i \<Longrightarrow> i \<le> j \<Longrightarrow> j \<le> int (length xs) \<Longrightarrow> length (py_slice xs i j) = nat (j - i)"
  by (auto simp: py_slice_in_range)

lemma assign_block_nth:
  fixes canvas :: mask
  assumes shape: "length canvas = S" "\<forall>row \<in> set canvas. length row = S"
    and fit: "oy + h \<le> S" "ox + w \<le> S"
    and blk: "length cropped = h" "\<forall>row \<in> set cropped. length row = w"
    and rc: "r < S" "c < S"
  shows "assign_block canvas (int oy) (int h) (int ox) (int w) cropped ! r ! c =
           (if oy \<le> r \<and> r < oy + h \<and> ox \<le> c \<and> c < ox + w
            then cropped ! (r - oy) ! (c - ox) else canvas ! r ! c)"
    and "length (assign_block canvas (int oy) (int h) (int ox) (int w) cropped) = S"
    and "length (assign_block canvas (int oy) (int h) (int ox) (int w) cropped ! r) = S"
proof -
  let ?cs = "py_slice canvas (int oy) (int oy + int h)"
  let ?f = "\<lambda>(crow, brow). take ox crow @ brow @ drop (ox + w) crow"
  have cs: "?cs = take h (drop oy canvas)"
    using shape(1) fit(1) by (subst py_slice_in_range) (auto simp: nat_add_distrib)
  have A: "assign_block canvas (int oy) (int h) (int ox) (int w) cropped
      = take oy canvas @ map ?f (zip (take h (drop oy canvas)) cropped) @ drop (oy + h) canvas"
    unfolding assign_block_def cs by (simp add: nat_add_distrib)
  have lmid: "length (map ?f (zip (take h (drop oy canvas)) cropped)) = h"
    using shape(1) fit(1) blk(1) by simp
  show "length (assign_block canvas (int oy) (int h) (int ox) (int w) cropped) = S"
    unfolding A using shape(1) fit(1) blk(1) by simp
  have rowlen: "length (canvas ! i) = S" if "i < S" for i
    using shape that by simp
  consider (top) "r < oy" | (mid) "oy \<le> r" "r < oy + h" | (bot) "oy + h \<le> r" by linarith
  then have "assign_block canvas (int oy) (int h) (int ox) (int w) cropped ! r ! c =
           (if oy \<le> r \<and> r < oy + h \<and> ox \<le> c \<and> c < ox + w
            then cropped ! (r - oy) ! (c - ox) else canvas ! r ! c)
       \<and> length (assign_block canvas (int oy) (int h) (int ox) (int w) cropped ! r) = S"
  proof cases
    case top
    then show ?thesis unfolding A using shape(1) fit(1) rc rowlen[of r]
      by (simp add: nth_append)
  next
    case mid
    define i where "i = r - oy"
    have i: "i < h" "r = oy + i" using mid by (auto simp: i_def)
    have row: "(take oy canvas @ map ?f (zip (take h (drop oy canvas)) cropped) @ drop (oy + h) canvas) ! r
        = take ox (canvas ! r) @ cropped ! i @ drop (ox + w) (canvas ! r)"
      using i shape(1) fit(1) blk(1) by (simp add: nth_append)
    have lb: "length (cropped ! i) = w" using blk i by simp
    have lc: "length (canvas ! r) = S" using rowlen rc by simp
    show ?thesis unfolding A row using i lb lc fit(2) rc mid
      by (auto simp: nth_append)
  next
    case bot
    then have n: "\<not> r < oy" "\<not> r - oy < h" "oy + h + (r - oy - h) = r" by linarith+
    have "(take oy canvas @ map ?f (zip (take h (drop oy canvas)) cropped) @ drop (oy + h) canvas) ! r
        = canvas ! r"
      using n shape(1) fit(1) blk(1) rc by (simp add: nth_append)
    then show ?thesis unfolding A using bot rowlen[of r] rc by simp
  qed
  then show "assign_block canvas (int oy) (int h) (int ox) (int w) cropped ! r ! c =
           (if oy \<le> r \<and> r < oy + h \<and> ox \<le> c \<and> c < ox + w
            then cropped ! (r - oy) ! (c - ox) else canvas ! r ! c)"
    and "length (assign_block canvas (int oy) (int h) (int ox) (int w) cropped ! r) = S" by simp_all
qed

lemma slice2_nth:
  assumes arr: "is_array m"
    and "0 \<le> x" "0 \<le> y" "0 \<le> w" "0 \<le> h" "y + h \<le> int (length m)" "x + w \<le> int (width m)"
  shows "length (slice2 m y (y + h) x (x + w)) = nat h"
    and "\<And>row. row \<in> set (slice2 m y (y + h) x (x + w)) \<Longrightarrow> length row = nat w"
    and "\<And>i j. i < nat h \<Longrightarrow> j < nat w \<Longrightarrow>
            slice2 m y (y + h) x (x + w) ! i ! j = m ! (nat y + i) ! (nat x + j)"
proof -
  have rows: "py_slice m y (y + h) = take (nat h) (drop (nat y) m)"
    using assms by (subst py_slice_in_range) (auto simp: nat_add_distrib)
  have len: "length row = width m" if "row \<in> set m" for row
    using arr that by (auto simp: is_array_def list_all_iff)
  have cols: "py_slice row x (x + w) = take (nat w) (drop (nat x) row)" if "row \<in> set m" for row
    using assms len[OF that] by (subst py_slice_in_range) (auto simp: nat_add_distrib)
  show "length (slice2 m y (y + h) x (x + w)) = nat h"
    using assms by (simp add: slice2_def rows)
  show "length row = nat w" if "row \<in> set (slice2 m y (y + h) x (x + w))" for row
  proof -
    from that obtain r0 where r0: "r0 \<in> set m" "row = py_slice r0 x (x + w)"
      unfolding slice2_def rows by (auto dest!: in_set_takeD in_set_dropD)
    then show ?thesis using cols[OF r0(1)] len[OF r0(1)] assms by simp
  qed
  fix i j assume ij: "i < nat h" "j < nat w"
  have "nat y + i < length m" using assms ij by linarith
  then have mem: "m ! (nat y + i) \<in> set m" by simp
  have "slice2 m y (y + h) x (x + w) ! i = py_slice (m ! (nat y + i)) x (x + w)"
    using ij assms \<open>nat y + i < length m\<close> by (simp add: slice2_def rows)
  then show "slice2 m y (y + h) x (x + w) ! i ! j = m ! (nat y + i) ! (nat x + j)"
    using cols[OF mem] len[OF mem] ij assms by simp
qed


lemma nonzero_points_empty_iff:
  "nonzero_points m = [] \<longleftrightarrow> list_all (list_all (\<lambda>v. v = 0)) m"
proof -
  have "nonzero_points m = [] \<longleftrightarrow> set (nonzero_points m) = {}" by simp
  also have "\<dots> \<longleftrightarrow> (\<forall>r < length m. \<forall>c < length (m ! r). m ! r ! c = 0)"
    unfolding set_nonzero_points by blast
  also have "\<dots> \<longleftrightarrow> list_all (list_all (\<lambda>v. v = 0)) m"
    by (simp add: list_all_length)
  finally show ?thesis .
qed

lemma ink_extract_single_glyph: "ink (extract_single_glyph binary) = ink binary"
proof (cases "nonzero_points binary = []")
  case True
  then show ?thesis by (simp add: extract_single_glyph_def findNonZero_def)
next
  case False
  obtain x y w h where bb: "boundingRect (nonzero_points binary) = (x, y, w, h)"
    by (metis prod_cases4)
  note B = boundingRect_nonzero[OF False bb]
  let ?size = "max w h + 20"
  let ?oy = "(?size - h) div 2" and ?ox = "(?size - w) div 2"
  let ?cropped = "slice2 binary y (y + h) x (x + w)"
  have ex: "extract_single_glyph binary = assign_block (zeros ?size ?size) ?oy h ?ox w ?cropped"
    using False bb by (simp add: extract_single_glyph_def findNonZero_def Let_def)
  have lc: "length ?cropped = nat h"
    using B by (simp add: slice2_def length_py_slice_in_range)
  have "length (py_slice (zeros ?size ?size) ?oy (?oy + h)) = nat h"
    using B by (subst length_py_slice_in_range) (auto simp: zeros_def)
  with lc have "ink (assign_block (zeros ?size ?size) ?oy h ?ox w ?cropped) = ink ?cropped"
    by (intro ink_assign_block) (auto simp: zeros_def)
  then show ?thesis
    using ink_slice2[OF False bb] by (simp add: ex)
qed



text \<open>
  C9. The single-glyph extractor returns a mask without foreground pixels unchanged.
  Otherwise, with \<open>(x, y, w, h)\<close> the bounding box of the foreground pixels, the output is a
  square of side \<open>max w h + 20\<close> that holds the cropped content at the offsets
  \<open>ox = (side - w) div 2\<close> and \<open>oy = (side - h) div 2\<close> and is zero everywhere else.
\<close>

theorem extract_single_glyph_canvas:
  assumes arr: "is_array binary"
  shows "(list_all (list_all (\<lambda>v. v = 0)) binary \<longrightarrow> extract_single_glyph binary = binary) \<and>
    (\<not> list_all (list_all (\<lambda>v. v = 0)) binary \<longrightarrow>
      (case boundingRect (nonzero_points binary) of (x, y, w, h) \<Rightarrow>
         let side = max w h + 20; ox = (side - w) div 2; oy = (side - h) div 2;
             out = extract_single_glyph binary
         in length out = nat side \<and>
            (\<forall>r < nat side. length (out ! r) = nat side \<and>
               (\<forall>c < nat side. out ! r ! c =
                  (if oy \<le> int r \<and> int r < oy + h \<and> ox \<le> int c \<and> int c < ox + w
                   then binary ! nat (y + (int r - oy)) ! nat (x + (int c - ox)) else 0)))))"
proof (cases "nonzero_points binary = []")
  case True
  then show ?thesis
    by (simp add: extract_single_glyph_def findNonZero_def nonzero_points_empty_iff)
next
  case False
  obtain x y w h where bb: "boundingRect (nonzero_points binary) = (x, y, w, h)"
    by (metis prod_cases4)
  note B = boundingRect_nonzero[OF False bb]
  define side where "side = max w h + 20"
  define ox where "ox = (side - w) div 2"
  define oy where "oy = (side - h) div 2"
  define cropped where "cropped = slice2 binary y (y + h) x (x + w)"
  define S where "S = nat side"
  have ex: "extract_single_glyph binary = assign_block (zeros side side) oy h ox w cropped"
    using False bb
    by (simp add: extract_single_glyph_def findNonZero_def Let_def side_def ox_def oy_def cropped_def)
  have xw: "x + w \<le> int (width binary)"
  proof -
    let ?X = "set (map fst (nonzero_points binary))"
    have "Max ?X \<in> ?X" using False by (intro Max_in) auto
    then obtain r c where rc: "r < length binary" "c < length (binary ! r)" "Max ?X = int c"
      by (force simp: set_nonzero_points)
    have "length (binary ! r) = width binary"
      using arr rc(1) by (auto simp: is_array_def list_all_length)
    moreover have "x + w = Max ?X + 1"
      using bb False by (auto simp: boundingRect_def Let_def)
    ultimately show ?thesis using rc by linarith
  qed
  have pos: "0 \<le> ox" "0 \<le> oy" "0 \<le> side" "ox + w \<le> side" "oy + h \<le> side"
    using B(3,4) by (auto simp: ox_def oy_def side_def)
  have crop: "length cropped = nat h" "\<forall>row \<in> set cropped. length row = nat w"
    "\<And>i j. i < nat h \<Longrightarrow> j < nat w \<Longrightarrow> cropped ! i ! j = binary ! (nat y + i) ! (nat x + j)"
    unfolding cropped_def using slice2_nth[OF arr B(1) B(2) _ _ B(5) xw] B(3,4) by auto
  have canvas: "length (zeros side side) = S" "\<forall>row \<in> set (zeros side side). length row = S"
    by (auto simp: zeros_def S_def)
  have fit: "nat oy + nat h \<le> S" "nat ox + nat w \<le> S"
    using pos B(3,4) by (auto simp: S_def)
  have ints: "int (nat oy) = oy" "int (nat h) = h" "int (nat ox) = ox" "int (nat w) = w"
    using pos B(3,4) by auto
  note AB = assign_block_nth[OF canvas fit crop(1,2), unfolded ints, folded ex]
  have len: "length (extract_single_glyph binary) = S"
    using AB(2)[of 0 0] pos B(3) by (simp add: S_def side_def)
  have px: "length (extract_single_glyph binary ! r) = S \<and>
      (\<forall>c < S. extract_single_glyph binary ! r ! c =
          (if oy \<le> int r \<and> int r < oy + h \<and> ox \<le> int c \<and> int c < ox + w
           then binary ! nat (y + (int r - oy)) ! nat (x + (int c - ox)) else 0))" if r: "r < S" for r
  proof (intro conjI allI impI)
    show "length (extract_single_glyph binary ! r) = S" using AB(3)[OF r r] .
    fix c assume c: "c < S"
    show "extract_single_glyph binary ! r ! c =
          (if oy \<le> int r \<and> int r < oy + h \<and> ox \<le> int c \<and> int c < ox + w
           then binary ! nat (y + (int r - oy)) ! nat (x + (int c - ox)) else 0)"
    proof (cases "oy \<le> int r \<and> int r < oy + h \<and> ox \<le> int c \<and> int c < ox + w")
      case True
      then have in_nat: "nat oy \<le> r \<and> r < nat oy + nat h \<and> nat ox \<le> c \<and> c < nat ox + nat w"
        using pos by linarith
      have "r - nat oy < nat h" "c - nat ox < nat w" using in_nat by linarith+
      from crop(3)[OF this] have "cropped ! (r - nat oy) ! (c - nat ox)
          = binary ! (nat y + (r - nat oy)) ! (nat x + (c - nat ox))" .
      moreover have "nat y + (r - nat oy) = nat (y + (int r - oy))" "nat x + (c - nat ox) = nat (x + (int c - ox))"
        using True B(1,2) pos by linarith+
      ultimately show ?thesis using AB(1)[OF r c] in_nat True by simp
    next
      case False
      then have out_nat: "\<not> (nat oy \<le> r \<and> r < nat oy + nat h \<and> nat ox \<le> c \<and> c < nat ox + nat w)"
        using pos B(3,4) by linarith
      have "zeros side side ! r ! c = 0" using r c by (simp add: zeros_def S_def)
      with AB(1)[OF r c] out_nat have "extract_single_glyph binary ! r ! c = 0" by simp
      with False show ?thesis by (simp only: if_False)
    qed
  qed
  show ?thesis
    using False len px
    by (simp add: nonzero_points_empty_iff bb Let_def side_def[symmetric] ox_def[symmetric] oy_def[symmetric] S_def[symmetric])
qed


theorem extract_single_glyph_canvas_witness:
  "is_array [[0, 0, 0], [0, 0, 0 :: uint8]]
   \<and> extract_single_glyph [[0, 0, 0], [0, 0, 0]] = [[0, 0, 0], [0, 0, 0]]
   \<and> is_array [[0, 0, 0], [0, 255, 0 :: uint8]]
   \<and> length (extract_single_glyph [[0, 0, 0], [0, 255, 0]]) = 21
   \<and> length (extract_single_glyph [[0, 0, 0], [0, 255, 0]] ! 10) = 21
   \<and> extract_single_glyph [[0, 0, 0], [0, 255, 0]] ! 10 ! 10 = 255
   \<and> extract_single_glyph [[0, 0, 0], [0, 255, 0]] ! 10 ! 11 = 0"
proof -
  let ?Z = "[[0, 0, 0], [0, 0, 0 :: uint8]]" and ?M = "[[0, 0, 0], [0, 255, 0 :: uint8]]"
  have aZ: "is_array ?Z" and aM: "is_array ?M"
    by (simp_all add: is_array_def width_def)
  have nz: "nonzero_points ?M = [(1, 1)]" by code_simp
  have bb: "boundingRect [(1, 1)] = (1, 1, 1, 1)" by (simp add: boundingRect_def)
  from extract_single_glyph_canvas[OF aZ] have Z: "extract_single_glyph ?Z = ?Z" by simp
  from extract_single_glyph_canvas[OF aM]
  have M: "length (extract_single_glyph ?M) = 21 \<and>
      (\<forall>r<21. length (extract_single_glyph ?M ! r) = 21 \<and>
         (\<forall>c<21. extract_single_glyph ?M ! r ! c =
            (if 10 \<le> int r \<and> int r < 11 \<and> 10 \<le> int c \<and> int c < 11
             then ?M ! nat (1 + (int r - 10)) ! nat (1 + (int c - 10)) else 0)))"
    by (simp add: nz bb Let_def)
  then have r10: "length (extract_single_glyph ?M ! 10) = 21 \<and>
         (\<forall>c<21. extract_single_glyph ?M ! 10 ! c =
            (if 10 \<le> int c \<and> int c < 11 then ?M ! 1 ! nat (1 + (int c - 10)) else 0))"
    by (elim conjE allE[of _ 10]) simp
  then have "extract_single_glyph ?M ! 10 ! 10 = 255" "extract_single_glyph ?M ! 10 ! 11 = 0"
    by (elim conjE allE[of _ 10], simp) (use r10 in \<open>elim conjE allE[of _ 11], simp\<close>)
  with aZ aM Z M r10 show ?thesis by simp
qed

text \<open>
  C10. The single-glyph extractor neither loses nor creates ink: the foreground pixel
  values of the output are those of the input, as a multiset (even in the same row-major
  order), so the number of foreground pixels is unchanged.
\<close>

theorem extract_single_glyph_preserves_ink:
  "mset (ink (extract_single_glyph binary)) = mset (ink binary)
   \<and> length (ink (extract_single_glyph binary)) = length (ink binary)"
  by (simp add: ink_extract_single_glyph)

theorem extract_single_glyph_preserves_ink_witness:
  "mset (ink (extract_single_glyph [[0, 7, 0], [0, 255, 0]])) = {#7, 255#}
   \<and> length (ink (extract_single_glyph [[0, 7, 0], [0, 255, 0]])) = 2"
  using extract_single_glyph_preserves_ink[of "[[0, 7, 0], [0, 255, 0]]"]
  by (simp add: ink_def)


section \<open>Verification of the vectorizer\<close>

lemma fold_shoelace:
  "fold (shoelace_step ps) [0..<k] a = a + (\<Sum>i<k. cross (ps ! i) (ps ! ((i + 1) mod length ps)))"
  by (induction k arbitrary: a) (simp_all add: shoelace_step_def cross_def Let_def)

lemma polygon_area_cross_sum: "polygon_area ps = of_int (cross_sum ps) / 2"
  by (simp add: polygon_area_def fold_shoelace cross_sum_def)

lemma cross_swap: "cross q p = - cross p q"
  by (simp add: cross_def)

lemma cross_sum_rev: "cross_sum (rev ps) = - cross_sum ps"
proof (cases ps)
  case Nil
  then show ?thesis by (simp add: cross_sum_def)
next
  case (Cons a as)
  define m where "m = length as"
  have n: "length ps = Suc m" by (simp add: Cons m_def)
  let ?t = "\<lambda>i. cross (ps ! i) (ps ! ((i + 1) mod Suc m))"
  have inner: "cross (rev ps ! i) (rev ps ! ((i + 1) mod Suc m)) = - ?t (m - Suc i)" if "i < m" for i
  proof -
    have "rev ps ! i = ps ! (m - i)" "rev ps ! (i + 1) = ps ! (m - Suc i)"
      using that n by (simp_all add: rev_nth)
    moreover have "(i + 1) mod Suc m = i + 1" "(m - Suc i + 1) mod Suc m = m - i"
      using that by simp_all
    ultimately show ?thesis by (simp add: cross_swap[of "ps ! (m - i)"])
  qed
  have last: "cross (rev ps ! m) (rev ps ! ((m + 1) mod Suc m)) = - ?t m"
    using n by (simp add: rev_nth cross_swap[of "ps ! 0"])
  let ?r = "\<lambda>i. cross (rev ps ! i) (rev ps ! ((i + 1) mod Suc m))"
  have "(\<Sum>i<m. ?r i) = (\<Sum>i<m. - ?t (m - Suc i))"
  proof (rule sum.cong[OF refl])
    fix i assume "i \<in> {..<m}"
    then have "i < m" by simp
    from inner[OF this] show "?r i = - ?t (m - Suc i)" .
  qed
  also have "\<dots> = - (\<Sum>i<m. ?t (m - Suc i))" by (simp only: sum_negf)
  also have "(\<Sum>i<m. ?t (m - Suc i)) = (\<Sum>i<m. ?t i)" by (rule sum.nat_diff_reindex)
  finally have front: "(\<Sum>i<m. ?r i) = - (\<Sum>i<m. ?t i)" .
  have "cross_sum (rev ps) = (\<Sum>i<m. ?r i) + ?r m"
    unfolding cross_sum_def length_rev n by (rule sum.lessThan_Suc)
  moreover have "cross_sum ps = (\<Sum>i<m. ?t i) + ?t m"
    unfolding cross_sum_def n by (rule sum.lessThan_Suc)
  ultimately show ?thesis using front last by linarith
qed

lemma sum_cyclic_shift:
  fixes f :: "nat \<Rightarrow> int"
  shows "n \<noteq> 0 \<Longrightarrow> (\<Sum>i<n. f ((i + 1) mod n)) = (\<Sum>i<n. f i)"
proof -
  assume "n \<noteq> 0"
  then obtain m where n: "n = Suc m" by (cases n) auto
  have "(\<Sum>i<Suc m. f ((i + 1) mod Suc m)) = (\<Sum>i<m. f ((i + 1) mod Suc m)) + f 0" by simp
  also have "(\<Sum>i<m. f ((i + 1) mod Suc m)) = (\<Sum>i<m. f (Suc i))"
    by (intro sum.cong) auto
  also have "\<dots> + f 0 = (\<Sum>i<Suc m. f i)"
    by (simp add: sum.lessThan_Suc_shift del: sum.lessThan_Suc)
  finally show ?thesis by (simp add: n)
qed

lemma cross_sum_shift: "cross_sum (map (\<lambda>(x, y). (x + b, y)) ps) = cross_sum ps"
proof (cases "ps = []")
  case True
  then show ?thesis by (simp add: cross_sum_def)
next
  case False
  let ?n = "length ps"
  let ?s = "\<lambda>i. (i + 1) mod ?n"
  have n: "?n \<noteq> 0" using False by simp
  have lt: "?s i < ?n" "Suc i mod ?n < ?n" for i using n by simp_all
  have "cross_sum (map (\<lambda>(x, y). (x + b, y)) ps)
      = (\<Sum>i<?n. cross (ps ! i) (ps ! ?s i) + b * (snd (ps ! ?s i) - snd (ps ! i)))"
    unfolding cross_sum_def length_map
    by (intro sum.cong refl) (simp add: lt cross_def case_prod_unfold algebra_simps)
  also have "\<dots> = cross_sum ps + b * ((\<Sum>i<?n. snd (ps ! ?s i)) - (\<Sum>i<?n. snd (ps ! i)))"
    by (simp only: cross_sum_def sum.distrib sum_subtractf sum_distrib_left[symmetric])
  also have "(\<Sum>i<?n. snd (ps ! ?s i)) = (\<Sum>i<?n. snd (ps ! i))"
    using sum_cyclic_shift[OF n, of "\<lambda>i. snd (ps ! i)"] .
  finally show ?thesis by simp
qed


lemma polygon_area_rev: "polygon_area (rev ps) = - polygon_area ps"
  by (simp add: polygon_area_cross_sum cross_sum_rev)

lemma polygon_area_shift: "polygon_area (map (\<lambda>(x, y). (x + b, y)) ps) = polygon_area ps"
  by (simp add: polygon_area_cross_sum cross_sum_shift)

lemma winding_ok_shift: "winding_ok (shift_path b p) = winding_ok p"
  by (simp add: winding_ok_def shift_path_def polygon_area_shift)

lemma font_paths_loop_Cons:
  "font_paths_loop cv hier bx by scale th ((i, contour) # rest) commands =
     (if length contour < 3 \<or> length (approxPolyDP cv contour) < 3
      then font_paths_loop cv hier bx by scale th rest commands
      else if length hier \<le> i then Inl IndexError
      else font_paths_loop cv hier bx by scale th rest
             (commands @ [emitted_path cv hier bx by scale th i contour]))"
  by (simp add: Let_def emitted_path_def split: prod.splits)

lemma winding_ok_emitted_path: "winding_ok (emitted_path cv hier bx by scale th i contour)"
  by (auto simp: winding_ok_def emitted_path_def Let_def polygon_area_rev)

lemma font_paths_loop_winding:
  "font_paths_loop cv hier bx by scale th ics commands = Inr out \<Longrightarrow>
   \<forall>p \<in> set commands. winding_ok p \<Longrightarrow> \<forall>p \<in> set out. winding_ok p"
proof (induction ics arbitrary: commands)
  case Nil
  then show ?case by simp
next
  case (Cons ic ics)
  obtain i contour where ic: "ic = (i, contour)" by (cases ic)
  show ?case
    using Cons.prems Cons.IH[of commands]
      Cons.IH[of "commands @ [emitted_path cv hier bx by scale th i contour]"]
    unfolding ic font_paths_loop_Cons
    by (auto simp: winding_ok_emitted_path split: if_splits)
qed

lemma font_paths_loop_total:
  "\<forall>(i, c) \<in> set ics. i < length hier \<Longrightarrow>
   \<exists>out. font_paths_loop cv hier bx by scale th ics commands = Inr out"
proof (induction ics arbitrary: commands)
  case Nil
  then show ?case by simp
next
  case (Cons ic ics)
  obtain i contour where ic: "ic = (i, contour)" by (cases ic)
  show ?case
    using Cons.prems Cons.IH[of commands]
      Cons.IH[of "commands @ [emitted_path cv hier bx by scale th i contour]"]
    unfolding ic font_paths_loop_Cons by auto
qed

text \<open>The vectorizer on the sample ring, step by step.\<close>

lemma sample_bounding_box: "boundingRect (concat [[(0, 0), (0, 9), (9, 9), (9, 0)], [(3, 3), (6, 3), (6, 6), (3, 6)]]) = (0, 0, 10, 10)" by code_simp

lemma py_round_numeral [simp]: "py_round (numeral n) = numeral n"
  using py_round_of_int[of "numeral n"] by simp

lemma py_round_neg_numeral [simp]: "py_round (- numeral n) = - numeral n"
  using py_round_of_int[of "- numeral n"] by simp

lemma py_round_zero [simp]: "py_round 0 = 0"
  using py_round_of_int[of 0] by simp

lemmas float_eval = float_of_int_def float_add_def float_sub_def float_mul_def int_truediv_def
  fl_numeral fl_neg_numeral fl_zero fl_one

lemma sample_area_outer: "polygon_area [(0, 800), (0, - 100), (900, - 100), (900, 800)] = 810000"
  by (simp add: polygon_area_def shoelace_step_def)

lemma sample_area_hole: "polygon_area [(300, 500), (600, 500), (600, 200), (300, 200)] = - 90000"
  by (simp add: polygon_area_def shoelace_step_def)

lemma sample_font_paths_loop: "font_paths_loop sample_cv [(- 1, - 1, 1, - 1), (- 1, - 1, - 1, 0)] 0 0 100 1000
    (enumerate 0 [[(0, 0), (0, 9), (9, 9), (9, 0)], [(3, 3), (6, 3), (6, 6), (3, 6)]]) []
    = Inr [\<lparr>points = [(900, 800), (900, - 100), (0, - 100), (0, 800)], is_hole = False\<rparr>,
           \<lparr>points = [(300, 200), (600, 200), (600, 500), (300, 500)], is_hole = True\<rparr>]"
  by (simp add: sample_cv_def sample_area_outer sample_area_hole DESCENDER_def
      transform_point_def float_eval)

lemma sample_glyph: "process_glyph_bitmap sample_cv [] =
     Inr \<lparr>paths = [\<lparr>points = [(1020, 800), (1020, - 100), (120, - 100), (120, 800)], is_hole = False\<rparr>,
                   \<lparr>points = [(420, 200), (720, 200), (720, 500), (420, 500)], is_hole = True\<rparr>],
          advance_width = 1240, lsb = 120\<rparr>"
proof -
  have fc: "findContours_ccomp sample_cv [] = ([[(0, 0), (0, 9), (9, 9), (9, 0)], [(3, 3), (6, 3), (6, 6), (3, 6)]],
      Some [(- 1, - 1, 1, - 1), (- 1, - 1, - 1, 0)])" by (simp add: sample_cv_def)
  have ps: "contours_to_font_paths sample_cv [[(0, 0), (0, 9), (9, 9), (9, 0)], [(3, 3), (6, 3), (6, 6), (3, 6)]]
      (Some [(- 1, - 1, 1, - 1), (- 1, - 1, - 1, 0)]) (ASCENDER - DESCENDER)
    = Inr [\<lparr>points = [(900, 800), (900, - 100), (0, - 100), (0, 800)], is_hole = False\<rparr>,
           \<lparr>points = [(300, 200), (600, 200), (600, 500), (300, 500)], is_hole = True\<rparr>]"
    unfolding contours_to_font_paths_def sample_bounding_box using sample_font_paths_loop
    by (simp add: ASCENDER_def DESCENDER_def float_eval)
  have bearing: "py_round (fl (1000 * fl (3 / 25))) = 120" by code_simp
  show ?thesis
    unfolding process_glyph_bitmap_def fc prod.case ps sample_bounding_box
    by (simp add: ASCENDER_def DESCENDER_def shift_path_def float_eval bearing)
qed

text \<open>
  C4. Every path the vectorizer emits obeys the winding convention: a path tagged outer
  has non-positive signed shoelace area and a path tagged hole has non-negative signed
  area. The loop reverses the points when the sign disagrees with the tag, reversal
  negates the area, and the final shift by the bearing leaves it unchanged.
\<close>

theorem process_glyph_bitmap_winding:
  assumes "process_glyph_bitmap cv binary = Inr g"
  shows "\<forall>p \<in> set (paths g).
           (\<not> is_hole p \<longrightarrow> polygon_area (points p) \<le> 0) \<and>
           (is_hole p \<longrightarrow> 0 \<le> polygon_area (points p))"
proof -
  obtain contours hierarchy where fc: "findContours_ccomp cv binary = (contours, hierarchy)"
    by (cases "findContours_ccomp cv binary")
  have "\<forall>p \<in> set (paths g). winding_ok p"
  proof (cases "contours = [] \<or> hierarchy = None")
    case True
    with assms fc show ?thesis by (auto simp: process_glyph_bitmap_def)
  next
    case False
    then obtain hier where hier: "hierarchy = Some hier" by auto
    obtain bx "by" bw bh where bb: "boundingRect (concat contours) = (bx, by, bw, bh)"
      by (metis prod_cases4)
    from assms fc False obtain ps where
      ps: "contours_to_font_paths cv contours hierarchy (ASCENDER - DESCENDER) = Inr ps"
      by (cases "contours_to_font_paths cv contours hierarchy (ASCENDER - DESCENDER)")
         (auto simp: process_glyph_bitmap_def)
    have "\<exists>b. paths g = map (shift_path b) ps"
      using assms False ps unfolding process_glyph_bitmap_def fc
      by (auto simp: bb Let_def)
    then obtain b where g: "paths g = map (shift_path b) ps" ..
    have "\<forall>p \<in> set ps. winding_ok p"
      using ps False hier font_paths_loop_winding[of cv hier bx "by" _ _ _ "[]" ps]
      by (auto simp: contours_to_font_paths_def bb Let_def split: if_splits)
    then show ?thesis by (simp add: g winding_ok_shift)
  qed
  then show ?thesis by (auto simp: winding_ok_def split: if_splits)
qed

theorem process_glyph_bitmap_winding_witness:
  "process_glyph_bitmap sample_cv [] =
     Inr \<lparr>paths = [\<lparr>points = [(1020, 800), (1020, - 100), (120, - 100), (120, 800)], is_hole = False\<rparr>,
                   \<lparr>points = [(420, 200), (720, 200), (720, 500), (420, 500)], is_hole = True\<rparr>],
          advance_width = 1240, lsb = 120\<rparr>
   \<and> polygon_area [(1020, 800), (1020, - 100), (120, - 100), (120, 800)] \<le> 0
   \<and> 0 \<le> polygon_area [(420, 200), (720, 200), (720, 500), (420, 500)]"
  using process_glyph_bitmap_winding[OF sample_glyph] by (simp add: sample_glyph)

text \<open>
  C3. When contour tracing yields at least one contour (OpenCV then returns a hierarchy
  with one entry per contour), the vectorizer returns a glyph whose left side bearing is
  \<open>round(raw_width * 0.12)\<close> and whose advance width is \<open>raw_width + 2 * lsb\<close>, where
  \<open>raw_width = round(bw * scale)\<close> is the rounded scaled width of the bounding box of all
  contour points and \<open>scale = 1000 / max(bh, 1)\<close>, every product and quotient being the
  double the program computes; hence the advance width is at least the raw width and the
  bearing is not negative.
\<close>

theorem process_glyph_bitmap_metrics:
  assumes fc: "findContours_ccomp cv binary = (contours, Some hier)"
    and ne: "contours \<noteq> []"
    and len: "length contours \<le> length hier"
  shows "\<exists>g. process_glyph_bitmap cv binary = Inr g \<and>
           (case boundingRect (concat contours) of (x, y, bw, bh) \<Rightarrow>
              let scale = int_truediv 1000 (max bh 1);
                  raw_width = py_round (float_mul (float_of_int bw) scale)
              in lsb g = py_round (float_mul (float_of_int raw_width) (fl (12 / 100)))
                 \<and> advance_width g = raw_width + 2 * lsb g
                 \<and> raw_width \<le> advance_width g
                 \<and> 0 \<le> lsb g)"
proof -
  obtain bx "by" bw bh where bb: "boundingRect (concat contours) = (bx, by, bw, bh)"
    by (metis prod_cases4)
  have bw: "0 \<le> bw"
  proof (cases "concat contours = []")
    case True
    with bb show ?thesis by (simp add: boundingRect_def)
  next
    case False
    let ?X = "set (map fst (concat contours))"
    have "Min ?X \<le> Max ?X" using False by (intro Min_le Max_in) auto
    moreover have "fst (snd (snd (boundingRect (concat contours)))) = Max ?X - Min ?X + 1"
      using False by (simp only: boundingRect_def Let_def if_False fst_conv snd_conv)
    ultimately show ?thesis by (simp add: bb)
  qed
  have "\<forall>(i, c) \<in> set (enumerate 0 contours). i < length hier"
    using len by (auto simp: in_set_enumerate_eq)
  from font_paths_loop_total[OF this]
  have total: "\<forall>scale. \<exists>ps. font_paths_loop cv hier bx by scale (ASCENDER - DESCENDER)
      (enumerate 0 contours) [] = Inr ps" by blast
  have "\<exists>ps. contours_to_font_paths cv contours (Some hier) (ASCENDER - DESCENDER) = Inr ps"
    unfolding contours_to_font_paths_def using ne by (simp add: bb Let_def total)
  then obtain ps where ps: "contours_to_font_paths cv contours (Some hier) (ASCENDER - DESCENDER) = Inr ps" ..
  define raw where "raw = py_round (float_mul (float_of_int bw) (int_truediv 1000 (max bh 1)))"
  define bearing where "bearing = py_round (float_mul (float_of_int raw) (fl (12 / 100)))"
  have raw: "0 \<le> raw"
    unfolding raw_def using bw by (intro py_round_nonneg float_ops_nonneg) auto
  then have b: "0 \<le> bearing"
    unfolding bearing_def by (intro py_round_nonneg float_ops_nonneg fl_nonneg) auto
  have "process_glyph_bitmap cv binary
      = Inr \<lparr>paths = map (shift_path bearing) ps, advance_width = raw + bearing * 2, lsb = bearing\<rparr>"
    using fc ne ps
    by (simp add: process_glyph_bitmap_def bb Let_def raw_def bearing_def ASCENDER_def DESCENDER_def)
  moreover have "py_round (float_mul (float_of_int raw) (fl (3 / 25))) = bearing"
    by (simp add: bearing_def)
  ultimately show ?thesis
    using b by (simp add: bb Let_def raw_def[symmetric])
qed

text \<open>
  A stroke 15 pixels wide and 240 high: the double \<open>15 * (1000 / 240)\<close> lies just above
  62.5, so the raw width is 63, the bearing 8 and the advance width 79.
\<close>

theorem process_glyph_bitmap_metrics_witness:
  "\<exists>g. process_glyph_bitmap
         (sample_cv\<lparr>findContours_ccomp :=
            (\<lambda>_. ([[(0, 0), (14, 0), (14, 239), (0, 239)]], Some [(- 1, - 1, - 1, - 1)]))\<rparr>) [] = Inr g
       \<and> lsb g = 8 \<and> advance_width g = 79 \<and> (63::int) \<le> advance_width g \<and> 0 \<le> lsb g"
proof -
  let ?cs = "[[(0, 0), (14, 0), (14, 239), (0, 239)]] :: contour list"
  let ?h = "[(- 1, - 1, - 1, - 1)] :: hierarchy"
  let ?cv = "sample_cv\<lparr>findContours_ccomp := (\<lambda>_. (?cs, Some ?h))\<rparr>"
  have fc: "findContours_ccomp ?cv [] = (?cs, Some ?h)" by simp
  have bb: "boundingRect (concat ?cs) = (0, 0, 15, 240)" by code_simp
  have raw: "py_round (float_mul (float_of_int 15) (int_truediv 1000 (max 240 1))) = 63"
    by code_simp
  have bearing: "py_round (float_mul (float_of_int 63) (fl (12 / 100))) = 8"
    by code_simp
  from process_glyph_bitmap_metrics[OF fc] show ?thesis
    unfolding bb prod.case Let_def raw bearing by auto
qed

section \<open>Verification of the segmenter\<close>

text \<open>
  C5. The dot-merge pass is to give a small box a partner only among the boxes below it
  whose width holds the small box's horizontal centre, as the source's own comment
  ("Parent should be below and horizontally overlapping") and docstring ("directly above")
  say. The pass does not keep to that: its test \<open>abs((x1 + w1 / 2) - (x2 + w2 / 2)) < w2\<close>
  lets the centres lie up to a full parent width apart. Of the two boxes below, the small
  one spans the columns 0 to 5 (centre 3) and the large one the columns 10 to 29; they
  share no column, yet the pass returns their union as one box.
\<close>

theorem merge_close_bboxes_merges_disjoint_boxes:
  "merge_close_bboxes [(0, 0, 6, 6, [(0, 0), (5, 5)]), (10, 10, 20, 20, [(10, 10), (29, 29)])]
     = [(0, 0, 30, 30)]
   \<and> median_height [(0, 0, 6, 6), (10, 10, 20, 20)] = 20
   \<and> is_small 20 (0, 0, 6, 6)
   \<and> (0 + 6 :: int) \<le> 10
   \<and> float_add (float_of_int 0) (int_truediv 6 2) < of_int 10"
proof -
  have "merge_close_bboxes [(0, 0, 6, 6, [(0, 0), (5, 5)]), (10, 10, 20, 20, [(10, 10), (29, 29)])]
     = [(0, 0, 30, 30)]" by code_simp
  moreover have "median_height [(0, 0, 6, 6), (10, 10, 20, 20)] = 20" by code_simp
  moreover have "is_small 20 (0, 0, 6, 6)" by code_simp
  moreover have "float_add (float_of_int 0) (int_truediv 6 2) < of_int 10" by code_simp
  ultimately show ?thesis by simp
qed

text \<open>
  C2 (as amended). When contours are found, segmentation fails with "no valid character
  regions" exactly when every bounding box has width at most 5 or height at most 5: those
  boxes, a 5 by 5 box among them, are the ones the noise filter discards.
\<close>

theorem segment_characters_noise_filter:
  assumes "findContours_external cv binary \<noteq> []"
  shows "segment_characters cv U binary pangram = Inl NoValidRegions \<longleftrightarrow>
           (\<forall>contour \<in> set (findContours_external cv binary).
              case boundingRect contour of (x, y, w, h) \<Rightarrow> w \<le> 5 \<or> h \<le> 5)"
proof -
  let ?keep = "\<lambda>contour. case boundingRect contour of (x, y, w, h) \<Rightarrow>
                       if 5 < w \<and> 5 < h then [(x, y, w, h, contour)] else []"
  have "?keep c = [] \<longleftrightarrow> (case boundingRect c of (x, y, w, h) \<Rightarrow> w \<le> 5 \<or> h \<le> 5)" for c
    by (cases "boundingRect c") auto
  then have "concat (map ?keep (findContours_external cv binary)) = [] \<longleftrightarrow>
      (\<forall>contour \<in> set (findContours_external cv binary).
              case boundingRect contour of (x, y, w, h) \<Rightarrow> w \<le> 5 \<or> h \<le> 5)"
    by simp
  then show ?thesis
    using assms by (simp add: segment_characters_def Let_def)
qed

theorem segment_characters_noise_filter_witness:
  "segment_characters (sample_cv\<lparr>findContours_external := (\<lambda>_. [[(0, 0), (0, 4), (4, 4), (4, 0)]])\<rparr>)
      ascii (replicate 5 (replicate 5 255)) [97] = Inl NoValidRegions"
proof -
  let ?cv = "sample_cv\<lparr>findContours_external := (\<lambda>_. [[(0, 0), (0, 4), (4, 4), (4, 0)]])\<rparr>"
  have bb: "boundingRect [(0, 0), (0, 4), (4, 4), (4, 0)] = (0, 0, 5, 5)" by code_simp
  show ?thesis
    using segment_characters_noise_filter[of ?cv "replicate 5 (replicate 5 255)" ascii "[97]"]
    by (simp add: bb)
qed

text \<open>
  C2, as the specification words it, has a 6 by 6 box discarded. The filter keeps it: with one traced
  region whose bounding box is 6 by 6, segmentation returns the letter with its crop.
\<close>

theorem segment_characters_six_by_six_counterexample:
  "findContours_external sample_cv square_mask = [[(0, 0), (0, 5), (5, 5), (5, 0)]]
   \<and> boundingRect [(0, 0), (0, 5), (5, 5), (5, 0)] = (0, 0, 6, 6)
   \<and> segment_characters sample_cv ascii square_mask [97] = Inr [([97], square_mask)]"
proof -
  have "findContours_external sample_cv square_mask = [[(0, 0), (0, 5), (5, 5), (5, 0)]]"
    by (simp add: sample_cv_def)
  moreover have "boundingRect [(0, 0), (0, 5), (5, 5), (5, 0)] = (0, 0, 6, 6)" by code_simp
  moreover have "segment_characters sample_cv ascii square_mask [97] = Inr [([97], square_mask)]"
    by code_simp
  ultimately show ?thesis by simp
qed


section \<open>Verification of the font assembler\<close>

lemma vectorize_loop_no_paths:
  "\<forall>(char, bitmap) \<in> set char_bitmaps. \<exists>g. process_glyph_bitmap cv bitmap = Inr g \<and> paths g = [] \<Longrightarrow>
   vectorize_loop cv char_bitmaps glyphs = Inr glyphs"
  by (induction char_bitmaps arbitrary: glyphs) auto

text \<open>
  C1 (as amended). \<open>create_font_from_chars\<close> fails with "no valid glyphs" whenever no
  supplied character vectorizes to a glyph with paths, in particular for the empty
  mapping, and the font endpoint answers an empty mapping with status 400 before the
  assembler is called: no font is assembled in either case.
\<close>

theorem create_font_from_chars_no_glyphs:
  assumes "\<forall>(char, bitmap) \<in> set char_bitmaps.
             \<exists>g. process_glyph_bitmap cv bitmap = Inr g \<and> paths g = []"
  shows "create_font_from_chars cv U ft char_bitmaps = Inl NoValidGlyphs
       \<and> create_font_from_chars cv U ft [] = Inl NoValidGlyphs
       \<and> generate_font_endpoint U ft [] = Inl 400"
  using vectorize_loop_no_paths[OF assms, of "[]"]
  by (simp add: create_font_from_chars_def generate_font_endpoint_def)

theorem create_font_from_chars_no_glyphs_witness:
  "create_font_from_chars (sample_cv\<lparr>findContours_ccomp := (\<lambda>_. ([], None))\<rparr>) ascii
      sample_fonttools [([97], [[0]])] = Inl NoValidGlyphs
   \<and> create_font_from_chars (sample_cv\<lparr>findContours_ccomp := (\<lambda>_. ([], None))\<rparr>) ascii
      sample_fonttools [] = Inl NoValidGlyphs
   \<and> generate_font_endpoint ascii sample_fonttools [] = Inl 400"
  using create_font_from_chars_no_glyphs[of "[([97], [[0]])]"
      "sample_cv\<lparr>findContours_ccomp := (\<lambda>_. ([], None))\<rparr>" ascii sample_fonttools]
  by (simp add: process_glyph_bitmap_def)

text \<open>
  On the empty mapping \<open>create_font\<close> reaches the library with the tables of the two fixed
  glyphs, whatever the library: its result is what the library makes of them, and never
  "no valid glyphs".
\<close>

lemma font_tables_empty:
  "font_tables U ft [] =
     (case pen_glyph_or_raise ft notdef_outline of
        Inl e \<Rightarrow> Inl e
      | Inr notdef \<Rightarrow>
          (case pen_glyph_or_raise ft [] of
             Inl e \<Rightarrow> Inl e
           | Inr space \<Rightarrow>
               Inr \<lparr>glyph_order = [''.notdef'', ''space''], cmap = [(32, ''space'')],
                    glyf = [(''.notdef'', notdef), (''space'', space)],
                    metrics = [(''.notdef'', (600, 100)), (''space'', (250, 0))]\<rparr>))"
  by (simp add: font_tables_def build_cmap_def UNITS_PER_EM_def split: sum.splits)

lemma create_font_empty_never_refused: "create_font U ft [] \<noteq> Inl NoValidGlyphs"
  by (auto simp: create_font_def font_tables_empty pen_glyph_or_raise_def
      split: sum.splits option.splits)

text \<open>
  C1, as the specification words it, has \<open>create_font\<close> itself fail on the empty mapping. It
  has no such check: with a library that builds and saves, it assembles the font of the
  two fixed glyphs and returns its two binaries.
\<close>

theorem create_font_empty_counterexample:
  "font_tables ascii sample_fonttools [] =
     Inr \<lparr>glyph_order = [''.notdef'', ''space''], cmap = [(32, ''space'')],
          glyf = [(''.notdef'', [[(100, 0), (100, 700), (500, 700), (500, 0)],
                                [(150, 50), (450, 50), (450, 650), (150, 650)]]), (''space'', [])],
          metrics = [(''.notdef'', (600, 100)), (''space'', (250, 0))]\<rparr>
   \<and> create_font ascii sample_fonttools [] = Inr ([0, 1, 0, 0], [119, 79, 70, 50])"
  by (simp add: create_font_def font_tables_empty pen_glyph_or_raise_def sample_fonttools_def
      notdef_outline_def)

lemma cmap_loop_append:
  "cmap_loop U (xs @ ys) cm =
     (case cmap_loop U xs cm of Inl e \<Rightarrow> Inl e | Inr cm1 \<Rightarrow> cmap_loop U ys cm1)"
  by (induction xs arbitrary: cm) (auto simp: Let_def split: sum.splits)

lemma cmap_loop_preserves:
  "cmap_loop U ks cm = Inr cm' \<Longrightarrow> \<forall>k \<in> set ks. \<not> cmap_writes U k c \<Longrightarrow>
     map_of cm' c = map_of cm c"
proof (induction ks arbitrary: cm)
  case Nil
  then show ?case by simp
next
  case (Cons k ks)
  from Cons.prems(1) obtain n where n: "py_ord k = Inr n"
    by (cases "py_ord k") auto
  from Cons.prems(2) have nc: "n \<noteq> c" and rest: "\<forall>k \<in> set ks. \<not> cmap_writes U k c"
    by (auto simp: cmap_writes_def n)
  show ?case
  proof (cases "str_islower U k")
    case True
    with Cons.prems(1) n obtain u where u: "py_ord (str_upper U k) = Inr u"
      by (cases "py_ord (str_upper U k)") (auto simp: Let_def)
    from Cons.prems(2) True u have uc: "u \<noteq> c" by (auto simp: cmap_writes_def)
    from Cons.prems(1) n True u
    have "cmap_loop U ks (AList.update u (uni_name n) (AList.update n (uni_name n) cm)) = Inr cm'"
      by (simp add: Let_def)
    from Cons.IH[OF this rest] nc uc show ?thesis by (simp add: update_conv')
  next
    case False
    with Cons.prems(1) n
    have "cmap_loop U ks (AList.update n (uni_name n) cm) = Inr cm'" by (simp add: Let_def)
    from Cons.IH[OF this rest] nc show ?thesis by (simp add: update_conv')
  qed
qed

text \<open>
  C6 (as amended). In the assembled character map, a supplied lower-case character whose
  upper-case form is one code point has that code point and its own mapped to its glyph
  \<open>uniXXXX\<close>, provided no key later in the mapping's order writes either code point; and
  the space code point is mapped to the space glyph provided no key writes it.
\<close>

theorem build_cmap_case_pairs:
  assumes ok: "build_cmap U glyphs = Inr cm"
  shows
    "(\<forall>before char after n u.
        map fst glyphs = before @ [char] @ after
        \<and> py_ord char = Inr n \<and> str_islower U char \<and> py_ord (str_upper U char) = Inr u
        \<and> (\<forall>k \<in> set after. \<not> cmap_writes U k n \<and> \<not> cmap_writes U k u)
        \<longrightarrow> map_of cm u = Some (uni_name n) \<and> map_of cm n = Some (uni_name n))
   \<and> ((\<forall>k \<in> set (map fst glyphs). \<not> cmap_writes U k 32) \<longrightarrow> map_of cm 32 = Some ''space'')"
proof (intro conjI allI impI)
  fix before char after n u
  assume a: "map fst glyphs = before @ [char] @ after
        \<and> py_ord char = Inr n \<and> str_islower U char \<and> py_ord (str_upper U char) = Inr u
        \<and> (\<forall>k \<in> set after. \<not> cmap_writes U k n \<and> \<not> cmap_writes U k u)"
  from ok a obtain cm1 where
    cm1: "cmap_loop U before [(32, ''space'')] = Inr cm1"
    and rest: "cmap_loop U ([char] @ after) cm1 = Inr cm"
    by (auto simp: build_cmap_def cmap_loop_append split: sum.splits)
  let ?cm2 = "AList.update u (uni_name n) (AList.update n (uni_name n) cm1)"
  from rest a have after: "cmap_loop U after ?cm2 = Inr cm" by (simp add: Let_def)
  have "map_of cm u = map_of ?cm2 u" "map_of cm n = map_of ?cm2 n"
    using cmap_loop_preserves[OF after] a by blast+
  then show "map_of cm u = Some (uni_name n)" "map_of cm n = Some (uni_name n)"
    by (simp_all add: update_conv')
next
  assume "\<forall>k \<in> set (map fst glyphs). \<not> cmap_writes U k 32"
  from cmap_loop_preserves[OF ok[unfolded build_cmap_def] this]
  show "map_of cm 32 = Some ''space''" by simp
qed

theorem build_cmap_case_pairs_witness:
  "build_cmap ascii [([97], \<lparr>paths = [], advance_width = 500, lsb = 0\<rparr>),
                     ([98], \<lparr>paths = [], advance_width = 500, lsb = 0\<rparr>)]
     = Inr [(32, ''space''), (97, ''uni0061''), (65, ''uni0061''), (98, ''uni0062''), (66, ''uni0062'')]
   \<and> map_of [(32 :: nat, ''space''), (97, ''uni0061''), (65, ''uni0061''), (98, ''uni0062''), (66, ''uni0062'')] 65
       = Some (uni_name 97)
   \<and> map_of [(32 :: nat, ''space''), (97, ''uni0061''), (65, ''uni0061''), (98, ''uni0062''), (66, ''uni0062'')] 97
       = Some (uni_name 97)
   \<and> map_of [(32 :: nat, ''space''), (97, ''uni0061''), (65, ''uni0061''), (98, ''uni0062''), (66, ''uni0062'')] 32
       = Some ''space''"
proof -
  let ?g = "\<lparr>paths = [], advance_width = 500, lsb = 0\<rparr>"
  let ?cm = "[(32 :: nat, ''space''), (97, ''uni0061''), (65, ''uni0061''), (98, ''uni0062''), (66, ''uni0062'')]"
  have ok: "build_cmap ascii [([97], ?g), ([98], ?g)] = Inr ?cm" by code_simp
  have w: "\<not> cmap_writes ascii [98] 97" "\<not> cmap_writes ascii [98] 65"
    "\<not> cmap_writes ascii [97] 32" "\<not> cmap_writes ascii [98] 32"
    by (simp_all add: cmap_writes_def py_ord_def ascii_def ascii_is_lower_def ascii_is_upper_def)
  have a: "py_ord [97] = Inr 97" "str_islower ascii [97]" "py_ord (str_upper ascii [97]) = Inr 65"
    by (simp_all add: py_ord_def ascii_def ascii_is_lower_def ascii_is_upper_def)
  from build_cmap_case_pairs[OF ok]
  have pairs: "\<forall>before char after n u.
        map fst [([97], ?g), ([98], ?g)] = before @ [char] @ after
        \<and> py_ord char = Inr n \<and> str_islower ascii char \<and> py_ord (str_upper ascii char) = Inr u
        \<and> (\<forall>k \<in> set after. \<not> cmap_writes ascii k n \<and> \<not> cmap_writes ascii k u)
        \<longrightarrow> map_of ?cm u = Some (uni_name n) \<and> map_of ?cm n = Some (uni_name n)"
    and space: "(\<forall>k \<in> set (map fst [([97], ?g), ([98], ?g)]). \<not> cmap_writes ascii k 32)
        \<longrightarrow> map_of ?cm 32 = Some ''space''"
    by blast+
  from pairs[rule_format, of "[]" "[97]" "[[98]]" 97 65] a w
  have "map_of ?cm 65 = Some (uni_name 97) \<and> map_of ?cm 97 = Some (uni_name 97)" by simp
  moreover from space w have "map_of ?cm 32 = Some ''space''" by simp
  ultimately show ?thesis using ok by simp
qed

text \<open>
  C6, as the specification words it, holds for every supplied character. With \<open>a\<close> and then \<open>A\<close> supplied,
  the upper-case code point 65 is mapped to \<open>uni0041\<close> and the lower-case 97 to
  \<open>uni0061\<close>; with the space character supplied, code point 32 is mapped to \<open>uni0020\<close>.
\<close>

theorem build_cmap_uppercase_counterexample:
  "build_cmap ascii [([97], \<lparr>paths = [], advance_width = 500, lsb = 0\<rparr>),
                     ([65], \<lparr>paths = [], advance_width = 500, lsb = 0\<rparr>)]
     = Inr [(32, ''space''), (97, ''uni0061''), (65, ''uni0041'')]
   \<and> map_of [(32 :: nat, ''space''), (97, ''uni0061''), (65, ''uni0041'')] 65
       \<noteq> map_of [(32 :: nat, ''space''), (97, ''uni0061''), (65, ''uni0041'')] (97 :: nat)
   \<and> build_cmap ascii [([32], \<lparr>paths = [], advance_width = 500, lsb = 0\<rparr>)]
     = Inr [(32, ''uni0020'')]"
proof -
  have "build_cmap ascii [([97], \<lparr>paths = [], advance_width = 500, lsb = 0\<rparr>),
                     ([65], \<lparr>paths = [], advance_width = 500, lsb = 0\<rparr>)]
     = Inr [(32, ''space''), (97, ''uni0061''), (65, ''uni0041'')]" by code_simp
  moreover have "build_cmap ascii [([32], \<lparr>paths = [], advance_width = 500, lsb = 0\<rparr>)]
     = Inr [(32, ''uni0020'')]" by code_simp
  ultimately show ?thesis by simp
qed



section \<open>Verification of the photo binarizer\<close>

lemma paint_label_shape:
  "same_shape labels result \<Longrightarrow> same_shape labels (paint_label labels i result)"
  by (auto simp: same_shape_def paint_label_def)

lemma paint_label_nth:
  "same_shape labels result \<Longrightarrow> r < length labels \<Longrightarrow> c < length (labels ! r) \<Longrightarrow>
     paint_label labels i result ! r ! c = (if labels ! r ! c = i then 255 else result ! r ! c)"
  by (auto simp: same_shape_def paint_label_def)

lemma fold_paint:
  assumes "same_shape labels result"
  shows "same_shape labels
           (fold (\<lambda>i result. if min_area \<le> area ! i then paint_label labels i result else result) ls result)
       \<and> (\<forall>r<length labels. \<forall>c<length (labels ! r).
            fold (\<lambda>i result. if min_area \<le> area ! i then paint_label labels i result else result) ls result ! r ! c
              = (if \<exists>i \<in> set ls. min_area \<le> area ! i \<and> labels ! r ! c = i then 255 else result ! r ! c))"
  using assms
proof (induction ls arbitrary: result)
  case Nil
  then show ?case by simp
next
  case (Cons i ls)
  let ?r1 = "if min_area \<le> area ! i then paint_label labels i result else result"
  have s1: "same_shape labels ?r1" using Cons.prems by (simp add: paint_label_shape)
  have p1: "?r1 ! r ! c = (if min_area \<le> area ! i \<and> labels ! r ! c = i then 255 else result ! r ! c)"
    if "r < length labels" "c < length (labels ! r)" for r c
    using paint_label_nth[OF Cons.prems that] by simp
  from Cons.IH[OF s1] p1 show ?case by (auto simp del: paint_label_def)
qed


lemma component_subset_fg: "p \<in> fg m \<Longrightarrow> component m p \<subseteq> fg m"
proof
  fix q assume p: "p \<in> fg m" and "q \<in> component m p"
  then have "(p, q) \<in> (fg_edges m)\<^sup>*" by (simp add: component_def)
  then show "q \<in> fg m"
    using p by (cases rule: rtrancl.cases) (auto simp: fg_edges_def)
qed

lemma component_refl: "p \<in> component m p"
  by (simp add: component_def)

lemma labelled_component:
  assumes L: "labelling8 m (n, labels, area)" and p: "(r, c) \<in> fg m"
  shows "{(r', c'). r' < length m \<and> c' < length (m ! r') \<and> labels ! r' ! c' = labels ! r ! c}
           = component m (r, c)"
proof (intro set_eqI iffI)
  fix q assume q: "q \<in> {(r', c'). r' < length m \<and> c' < length (m ! r') \<and> labels ! r' ! c' = labels ! r ! c}"
  obtain r' c' where qq: "q = (r', c')" by (cases q)
  from q qq have g: "r' < length m" "c' < length (m ! r')" and e: "labels ! r' ! c' = labels ! r ! c"
    by auto
  from p have "labels ! r ! c \<noteq> 0" using L by (auto simp: labelling8_def fg_def)
  moreover have "labels ! r' ! c' = 0 \<longleftrightarrow> m ! r' ! c' = 0"
    using L g by (simp add: labelling8_def)
  ultimately have "m ! r' ! c' \<noteq> 0" using e by simp
  with g have "q \<in> fg m" by (simp add: fg_def qq)
  with p e show "q \<in> component m (r, c)" using L unfolding labelling8_def qq by fastforce
next
  fix q assume q: "q \<in> component m (r, c)"
  then have f: "q \<in> fg m" using component_subset_fg[OF p] by blast
  obtain r' c' where qq: "q = (r', c')" by (cases q)
  from p f q have "labels ! r ! c = labels ! r' ! c'"
    using L unfolding labelling8_def qq by fastforce
  with f show "q \<in> {(r', c'). r' < length m \<and> c' < length (m ! r') \<and> labels ! r' ! c' = labels ! r ! c}"
    by (simp add: fg_def qq)
qed

lemma remove_small_components_pixels:
  assumes L: "labelling8 binary (connectedComponentsWithStats cv binary)"
  shows "same_shape binary (remove_small_components cv binary min_area)"
    and "\<And>r c. r < length binary \<Longrightarrow> c < length (binary ! r) \<Longrightarrow>
           remove_small_components cv binary min_area ! r ! c
             = (if binary ! r ! c \<noteq> 0 \<and> min_area \<le> card (component binary (r, c)) then 255 else 0)"
proof -
  obtain n labels area where cc: "connectedComponentsWithStats cv binary = (n, labels, area)"
    by (metis prod_cases3)
  note L' = L[unfolded cc]
  let ?zero = "map (\<lambda>row. map (\<lambda>_. 0 :: uint8) row) binary"
  let ?step = "\<lambda>i result. if min_area \<le> area ! i then paint_label labels i result else result"
  have out: "remove_small_components cv binary min_area = fold ?step [1..<n] ?zero"
    by (simp add: remove_small_components_def cc)
  have shape: "same_shape labels binary" "same_shape labels ?zero"
    using L' by (auto simp: labelling8_def same_shape_def)
  note F = fold_paint[OF shape(2), where min_area = min_area and area = area and ls = "[1..<n]",
      folded out]
  from F shape(1) show "same_shape binary (remove_small_components cv binary min_area)"
    by (auto simp: same_shape_def)
  fix r c assume rc: "r < length binary" "c < length (binary ! r)"
  then have rc': "r < length labels" "c < length (labels ! r)"
    using shape(1) by (auto simp: same_shape_def)
  have lab: "labels ! r ! c < n" "labels ! r ! c = 0 \<longleftrightarrow> binary ! r ! c = 0"
    using L' rc by (auto simp: labelling8_def)
  have px: "remove_small_components cv binary min_area ! r ! c
      = (if \<exists>i \<in> set [1..<n]. min_area \<le> area ! i \<and> labels ! r ! c = i then 255 else 0)"
    using F rc rc' by simp
  show "remove_small_components cv binary min_area ! r ! c
             = (if binary ! r ! c \<noteq> 0 \<and> min_area \<le> card (component binary (r, c)) then 255 else 0)"
  proof (cases "binary ! r ! c = 0")
    case True
    with lab px show ?thesis by auto
  next
    case False
    with rc have p: "(r, c) \<in> fg binary" by (simp add: fg_def)
    have "area ! (labels ! r ! c)
        = card {(r', c'). r' < length binary \<and> c' < length (binary ! r') \<and> labels ! r' ! c' = labels ! r ! c}"
      using L' lab(1) by (auto simp: labelling8_def)
    also have "\<dots> = card (component binary (r, c))"
      by (simp only: labelled_component[OF L' p])
    finally have "area ! (labels ! r ! c) = card (component binary (r, c))" .
    moreover have "1 \<le> labels ! r ! c" using False lab(2) by simp
    ultimately show ?thesis using px lab(1) False by auto
  qed
qed

lemma component_of_kept:
  assumes sub: "fg out \<subseteq> fg m"
    and closed: "\<And>p q. p \<in> fg out \<Longrightarrow> (p, q) \<in> fg_edges m \<Longrightarrow> q \<in> fg out"
    and p: "p \<in> fg out"
  shows "component out p = component m p"
proof (intro set_eqI iffI)
  fix q assume "q \<in> component out p"
  then have "(p, q) \<in> (fg_edges out)\<^sup>*" by (simp add: component_def)
  moreover have "fg_edges out \<subseteq> fg_edges m" using sub by (auto simp: fg_edges_def)
  ultimately have "(p, q) \<in> (fg_edges m)\<^sup>*" using rtrancl_mono by blast
  then show "q \<in> component m p" by (simp add: component_def)
next
  fix q assume "q \<in> component m p"
  then have "(p, q) \<in> (fg_edges m)\<^sup>*" by (simp add: component_def)
  then have "(p, q) \<in> (fg_edges out)\<^sup>* \<and> q \<in> fg out"
  proof (induction rule: rtrancl_induct)
    case base
    show ?case using p by simp
  next
    case (step y z)
    then have z: "z \<in> fg out" using closed by blast
    with step have "(y, z) \<in> fg_edges out" by (auto simp: fg_edges_def)
    with step z show ?case by (meson rtrancl.rtrancl_into_rtrancl)
  qed
  then show "q \<in> component out p" by (simp add: component_def)
qed

text \<open>
  The small-component filter for any area floor: the output has the shape of the input,
  a pixel is 255 when it is foreground in a component of at least \<open>min_area\<close> pixels and 0
  otherwise, and the components of the output are components of the input.
\<close>

lemma remove_small_components_spec:
  assumes L: "labelling8 binary (connectedComponentsWithStats cv binary)"
  shows "let out = remove_small_components cv binary min_area in
           length out = length binary
         \<and> (\<forall>r<length binary. length (out ! r) = length (binary ! r)
              \<and> (\<forall>c<length (binary ! r). out ! r ! c =
                    (if binary ! r ! c \<noteq> 0 \<and> min_area \<le> card (component binary (r, c))
                     then 255 else 0)))
         \<and> (\<forall>p \<in> fg out. component out p = component binary p \<and> min_area \<le> card (component out p))"
proof -
  define out where "out = remove_small_components cv binary min_area"
  note P = remove_small_components_pixels[OF L, where min_area = min_area, folded out_def]
  obtain n labels area where cc: "connectedComponentsWithStats cv binary = (n, labels, area)"
    by (metis prod_cases3)
  note L' = L[unfolded cc]
  have shape: "length out = length binary" "\<And>r. r < length binary \<Longrightarrow> length (out ! r) = length (binary ! r)"
    using P(1) by (auto simp: same_shape_def)
  have fg_out: "fg out = {p \<in> fg binary. min_area \<le> card (component binary p)}"
    using P(2) shape by (auto simp: fg_def split: if_splits)
  have closed: "q \<in> fg out" if "p \<in> fg out" "(p, q) \<in> fg_edges binary" for p q
  proof -
    from that fg_out have p: "p \<in> fg binary" "min_area \<le> card (component binary p)" by auto
    from that(2) have q: "q \<in> fg binary" by (simp add: fg_edges_def)
    from that(2) have qc: "q \<in> component binary p" by (auto simp: component_def)
    obtain r c r' c' where pq: "p = (r, c)" "q = (r', c')" by (cases p; cases q)
    from p(1) q qc have "labels ! r ! c = labels ! r' ! c'"
      using L' unfolding labelling8_def pq by fastforce
    then have "component binary q = component binary p"
      using labelled_component[OF L' p(1)[unfolded pq]] labelled_component[OF L' q[unfolded pq]]
      by (simp add: pq)
    with p q show ?thesis by (simp add: fg_out)
  qed
  have comp: "component out p = component binary p \<and> min_area \<le> card (component out p)"
    if "p \<in> fg out" for p
  proof -
    have "component out p = component binary p"
      using component_of_kept[of out binary p] fg_out closed that by blast
    with that fg_out show ?thesis by simp
  qed
  show ?thesis
    unfolding Let_def out_def[symmetric]
  proof (intro conjI allI impI ballI)
    show "length out = length binary" by (rule shape)
    show "length (out ! r) = length (binary ! r)" if "r < length binary" for r
      using that by (rule shape)
    show "out ! r ! c = (if binary ! r ! c \<noteq> 0 \<and> min_area \<le> card (component binary (r, c))
                     then 255 else 0)" if "r < length binary" "c < length (binary ! r)" for r c
      using that by (rule P(2))
    show "component out p = component binary p" if "p \<in> fg out" for p
      using comp[OF that] by blast
    show "min_area \<le> card (component out p)" if "p \<in> fg out" for p
      using comp[OF that] by blast
  qed
qed


text \<open>
  C8. Given the labelling OpenCV computes for the mask after the morphological closing, the
  mask the photo pipeline returns keeps (as 255) exactly the foreground pixels whose
  8-connected component has at least 50 pixels and zeroes every other pixel; every
  connected foreground component of the returned mask is one of those components, so none
  has fewer than 50 pixels.
\<close>

theorem preprocess_removes_small_components:
  assumes "labelling8 (closed_mask cv img) (connectedComponentsWithStats cv (closed_mask cv img))"
  shows "let cleaned = closed_mask cv img; out = preprocess cv img in
           length out = length cleaned
         \<and> (\<forall>r<length cleaned. length (out ! r) = length (cleaned ! r)
              \<and> (\<forall>c<length (cleaned ! r). out ! r ! c =
                    (if cleaned ! r ! c \<noteq> 0 \<and> 50 \<le> card (component cleaned (r, c))
                     then 255 else 0)))
         \<and> (\<forall>p \<in> fg out. component out p = component cleaned p \<and> 50 \<le> card (component out p))"
proof -
  have eq: "preprocess cv img = remove_small_components cv (closed_mask cv img) 50"
    by (simp add: preprocess_def closed_mask_def)
  show ?thesis
    unfolding Let_def eq
    by (rule remove_small_components_spec[OF assms, where min_area = 50, unfolded Let_def])
qed

text \<open>A single row of foreground pixels is one component.\<close>

lemma fg_row: "fg [replicate n 255] = {0} \<times> {..<n}"
  by (auto simp: fg_def)

lemma row_edge: "Suc b < n \<Longrightarrow> ((0, b), (0, Suc b)) \<in> fg_edges [replicate n 255]"
    "Suc b < n \<Longrightarrow> ((0, Suc b), (0, b)) \<in> fg_edges [replicate n 255]"
  by (auto simp: fg_edges_def fg_row adjacent8_def)

lemma row_from_origin: "b < n \<Longrightarrow> ((0, 0), (0, b)) \<in> (fg_edges [replicate n 255])\<^sup>*"
proof (induction b)
  case 0
  then show ?case by simp
next
  case (Suc b)
  then have "((0, 0), (0, b)) \<in> (fg_edges [replicate n 255])\<^sup>*" by simp
  with row_edge(1)[OF Suc.prems] show ?case by (rule rtrancl_into_rtrancl[rotated])
qed

lemma row_to_origin: "a < n \<Longrightarrow> ((0, a), (0, 0)) \<in> (fg_edges [replicate n 255])\<^sup>*"
proof (induction a)
  case 0
  then show ?case by simp
next
  case (Suc a)
  then have "((0, a), (0, 0)) \<in> (fg_edges [replicate n 255])\<^sup>*" by simp
  with row_edge(2)[OF Suc.prems] show ?case by (rule converse_rtrancl_into_rtrancl)
qed

lemma component_row: "a < n \<Longrightarrow> component [replicate n 255] (0, a) = {0 :: nat} \<times> {..<n}"
proof (intro equalityI subsetI)
  fix q :: "nat \<times> nat" assume "a < n" "q \<in> component [replicate n 255] (0, a)"
  then show "q \<in> {0 :: nat} \<times> {..<n}"
    using component_subset_fg[of "(0, a)" "[replicate n 255]"] by (auto simp: fg_row)
next
  fix q assume a: "a < n" and "q \<in> {0 :: nat} \<times> {..<n}"
  then obtain b where q: "q = (0, b)" "b < n" by auto
  from row_to_origin[OF a] row_from_origin[OF q(2)]
  show "q \<in> component [replicate n 255] (0, a)"
    unfolding component_def q by (auto intro: rtrancl_trans)
qed

lemma labelling8_row:
  "labelling8 [replicate n 255] (connectedComponentsWithStats sample_cv [replicate n 255])"
proof -
  let ?m = "[replicate n 255] :: mask"
  let ?labels = "map (map (\<lambda>_. 1)) ?m :: nat list list"
  have S: "{(r, c). r < length ?m \<and> c < length (?m ! r) \<and> ?labels ! r ! c = i}
      = (if i = 1 then {0} \<times> {..<n} else {})" for i
    by auto
  have area: "\<forall>i<2. [0, length (concat ?m)] ! i
      = card {(r, c). r < length ?m \<and> c < length (?m ! r) \<and> ?labels ! r ! c = i}"
    unfolding S by (auto simp: less_Suc_eq numeral_2_eq_2)
  have comp: "\<forall>p \<in> fg ?m. \<forall>q \<in> fg ?m.
      ?labels ! fst p ! snd p = ?labels ! fst q ! snd q \<longleftrightarrow> q \<in> component ?m p"
    by (auto simp: fg_row component_row)
  have rest: "length ?labels = length ?m" "\<forall>r<length ?m. length (?labels ! r) = length (?m ! r)"
    "\<forall>r<length ?m. \<forall>c<length (?m ! r). ?labels ! r ! c < 2 \<and> (?labels ! r ! c = 0 \<longleftrightarrow> ?m ! r ! c = 0)"
    by auto
  have cc: "connectedComponentsWithStats sample_cv ?m = (2, ?labels, [0, length (concat ?m)])"
    by (simp add: sample_cv_def)
  show ?thesis
    unfolding cc labelling8_def prod.case using rest comp area by simp
qed

theorem preprocess_removes_small_components_witness:
  "labelling8 (closed_mask sample_cv [replicate 50 255])
       (connectedComponentsWithStats sample_cv (closed_mask sample_cv [replicate 50 255]))
   \<and> preprocess sample_cv [replicate 50 255] = [replicate 50 255]
   \<and> labelling8 (closed_mask sample_cv [replicate 49 255])
       (connectedComponentsWithStats sample_cv (closed_mask sample_cv [replicate 49 255]))
   \<and> preprocess sample_cv [replicate 49 255] = [replicate 49 0]"
proof -
  have cm: "closed_mask sample_cv [replicate n 255] = [replicate n 255]" for n
    by (simp add: closed_mask_def sample_cv_def)
  have L: "labelling8 (closed_mask sample_cv [replicate n 255])
       (connectedComponentsWithStats sample_cv (closed_mask sample_cv [replicate n 255]))" for n
    unfolding cm by (rule labelling8_row)
  have card: "card (component [replicate n 255] (0, c)) = n" if "c < n" for n c
    using that by (simp add: component_row)
  have out: "preprocess sample_cv [replicate n 255] = [replicate n (if 50 \<le> n then 255 else 0)]" for n
  proof -
    from preprocess_removes_small_components[OF L[of n]]
    have len: "length (preprocess sample_cv [replicate n 255]) = 1"
      and row: "length (preprocess sample_cv [replicate n 255] ! 0) = n"
      and px: "\<forall>c<n. preprocess sample_cv [replicate n 255] ! 0 ! c = (if 50 \<le> n then 255 else 0)"
      unfolding cm Let_def by (auto simp: card)
    have "preprocess sample_cv [replicate n 255] ! 0 = replicate n (if 50 \<le> n then 255 else 0)"
      using row px by (intro nth_equalityI) auto
    with len show ?thesis
      by (cases "preprocess sample_cv [replicate n 255]") auto
  qed
  show ?thesis using L[of 50] L[of 49] out[of 50] out[of 49] by simp
qed


end
